theory Spec2Isabelle
  imports Main "HOL-Library.Word" "HOL-Library.AList"
begin

section \<open>The kitcat index store and staging walker\<close>

text \<open>
  A shallow embedding of \<^verbatim>\<open>internal/storage/index.go\<close> (package storage) and of the
  staging entry points \<^verbatim>\<open>AddFile\<close> and \<^verbatim>\<open>AddAll\<close> (package core).

  Conventions.
  \<^item> A Go \<^verbatim>\<open>map[string]T\<close> is an association list; \<open>map_of\<close> is the lookup,
    \<open>AList.update\<close> the assignment \<^verbatim>\<open>m[k] = v\<close>, \<open>AList.delete\<close> the builtin
    \<^verbatim>\<open>delete(m, k)\<close>, and a \<^verbatim>\<open>for k, v := range m\<close> loop is a recursion along the list.
    Go leaves the iteration order open; the theorems below hold for every order of the lists
    they quantify over.
  \<^item> A Go \<^verbatim>\<open>error\<close> result is an \<open>error option\<close> (\<open>None\<close> is \<^verbatim>\<open>nil\<close>); a pair
    \<^verbatim>\<open>(T, error)\<close> is a sum with the error on the left.
  \<^item> \<^verbatim>\<open>int64\<close> is \<open>64 word\<close>.
  \<^item> Everything the two files call but do not define (the Go standard library, and the
    collaborators \<^verbatim>\<open>lock\<close>, \<^verbatim>\<open>SafeWriteFile\<close>, \<^verbatim>\<open>HashAndStoreFile\<close>, \<^verbatim>\<open>IsSafePath\<close>,
    \<^verbatim>\<open>LoadIgnorePatterns\<close>, \<^verbatim>\<open>ShouldIgnore\<close>, \<^verbatim>\<open>RepoDir\<close>) is a field of the record
    \<open>env\<close>, so every theorem holds for each behaviour of these parts. A Go map handed to
    one of them (\<^verbatim>\<open>json.MarshalIndent\<close>, which writes the keys sorted, and \<^verbatim>\<open>ShouldIgnore\<close>)
    is handed over as the lookup function \<open>map_of\<close> of the list: a Go map has no order of
    its own.
\<close>

subsection \<open>Data\<close>

type_synonym bytes = string

text \<open>Errors of the operating system and of the collaborators, as far as the code tells them apart
  (\<^verbatim>\<open>os.IsNotExist\<close>).\<close>

datatype oserr = ErrNotExist | ErrPermission | ErrOther string

definition os_IsNotExist :: "oserr option \<Rightarrow> bool" where
  "os_IsNotExist err = (err = Some ErrNotExist)"

fun oserr_Error :: "oserr \<Rightarrow> string" where
  "oserr_Error ErrNotExist = ''file does not exist''"
| "oserr_Error ErrPermission = ''permission denied''"
| "oserr_Error (ErrOther s) = s"

text \<open>The errors the two files build or pass on. \<open>SkipDir\<close> and \<open>SkipAll\<close> are the sentinel
  values of \<^verbatim>\<open>path/filepath\<close>; \<open>NilFileInfo\<close> stands for the nil dereference of
  \<^verbatim>\<open>info.IsDir()\<close>.\<close>

datatype error =
    NotAKitcatRepository
  | ResolveAbsolutePathFailed oserr
  | ResolveRepoRootFailed oserr
  | PathDoesNotExist string
  | CouldNotReadIndexFile oserr
  | IndexFileCorruption string
  | DecodeLegacyEntryFailed string string
  | DecodeEntryFailed string string
  | MarshalIndexFailed string
  | OutsideRepository string
  | FailedToHash string oserr
  | External oserr
  | SkipDir
  | SkipAll
  | NilFileInfo

record IndexEntry =
  Hash :: string
  ModTime :: "64 word"
  Size :: "64 word"

type_synonym index = "(string \<times> IndexEntry) list"
type_synonym hashmap = "(string \<times> string) list"

text \<open>What \<^verbatim>\<open>os.FileInfo\<close> gives the walkers: \<^verbatim>\<open>IsDir()\<close>, \<^verbatim>\<open>Size()\<close> and
  \<^verbatim>\<open>ModTime().Unix()\<close>.\<close>

record FileInfo =
  IsDir :: bool
  info_Size :: "64 word"
  info_ModTime_Unix :: "64 word"

text \<open>The file tree as \<^verbatim>\<open>filepath.Walk\<close> meets it: \<^verbatim>\<open>os.Lstat\<close> of a path fails, or gives a
  \<open>FileInfo\<close>; for a directory, \<^verbatim>\<open>readDirNames\<close> fails or gives the names, each with its own
  tree.\<close>

datatype fstree =
    LstatFails oserr
  | Node FileInfo "oserr option" "(string \<times> fstree) list"

text \<open>The observable effects besides the index file: lines printed to standard output, and the
  paths handed to \<^verbatim>\<open>HashAndStoreFile\<close> (each such call reads the file's content).\<close>

record effects =
  stdout :: "string list"
  hashed :: "string list"

text \<open>The part of the file system the index store touches: the result of \<^verbatim>\<open>os.Stat\<close> for each
  path (\<open>None\<close>: the path exists), and the result of \<^verbatim>\<open>os.ReadFile(indexPath)\<close>.\<close>

record disk =
  stat :: "string \<Rightarrow> oserr option"
  indexFile :: "oserr + bytes"

record 'p env =
  RepoDir :: string
  PathSeparator :: char
  IsSafePath :: "string \<Rightarrow> bool"
  LoadIgnorePatterns :: "oserr + 'p"
  ShouldIgnore :: "string \<Rightarrow> 'p \<Rightarrow> (string \<rightharpoonup> string) \<Rightarrow> bool"
  HashAndStoreFile :: "string \<Rightarrow> oserr + string"
  lock :: "string \<Rightarrow> oserr option"
  SafeWriteFile :: "string \<Rightarrow> bytes \<Rightarrow> oserr option"
  os_MkdirAll :: "string \<Rightarrow> oserr option"
  os_Lstat :: "string \<Rightarrow> fstree"
  filepath_Abs :: "string \<Rightarrow> oserr + string"
  filepath_Rel :: "string \<Rightarrow> string \<Rightarrow> oserr + string"
  filepath_Clean :: "string \<Rightarrow> string"
  filepath_Join :: "string \<Rightarrow> string \<Rightarrow> string"
  bytes_TrimSpace :: "bytes \<Rightarrow> bytes"
  json_Unmarshal_rawMap :: "bytes \<Rightarrow> string + (string \<times> bytes) list"
  json_Unmarshal_string :: "bytes \<Rightarrow> string + string"
  json_Unmarshal_IndexEntry :: "bytes \<Rightarrow> string + IndexEntry"
  json_MarshalIndent :: "(string \<rightharpoonup> IndexEntry) \<Rightarrow> string + bytes"

subsection \<open>index.go: loading\<close>

definition indexPath :: string where
  "indexPath = ''.kitcat/index''"

text \<open>\<^verbatim>\<open>filepath.Dir(indexPath)\<close>.\<close>

definition indexDir :: string where
  "indexDir = ''.kitcat''"

definition unknown_format_warning :: "string \<Rightarrow> string" where
  "unknown_format_warning path =
     ''warning: unknown index format for '' @ path @ '', skipping'' @ [CHR 0x0A]"

text \<open>The body of \<^verbatim>\<open>for path, rawValue := range rawMap\<close> in \<^verbatim>\<open>LoadIndexWithMeta\<close>, with the
  index built so far and the lines printed so far. \<open>CHR 0x22\<close> is the quote character,
  \<open>CHR 0x7B\<close> the opening brace.\<close>

fun load_entries ::
  "'p env \<Rightarrow> (string \<times> bytes) list \<Rightarrow> index \<Rightarrow> string list \<Rightarrow> (error + index) \<times> string list"
where
  "load_entries env [] index out = (Inr index, out)"
| "load_entries env ((path, rawValue0) # rest) index out =
     (let rawValue = bytes_TrimSpace env rawValue0 in
      if length rawValue = 0 then load_entries env rest index out
      else if hd rawValue = CHR 0x22 then
        (case json_Unmarshal_string env rawValue of
           Inl e \<Rightarrow> (Inl (DecodeLegacyEntryFailed path e), out)
         | Inr hash \<Rightarrow>
             load_entries env rest
               (AList.update path \<lparr>Hash = hash, ModTime = 0, Size = 0\<rparr> index) out)
      else if hd rawValue = CHR 0x7B then
        (case json_Unmarshal_IndexEntry env rawValue of
           Inl e \<Rightarrow> (Inl (DecodeEntryFailed path e), out)
         | Inr entry \<Rightarrow> load_entries env rest (AList.update path entry index) out)
      else load_entries env rest index (out @ [unknown_format_warning path]))"

definition LoadIndexWithMeta :: "'p env \<Rightarrow> disk \<Rightarrow> (error + index) \<times> string list" where
  "LoadIndexWithMeta env d =
     (case indexFile d of
        Inl err \<Rightarrow>
          if os_IsNotExist (Some err) then (Inr [], [])
          else (Inl (CouldNotReadIndexFile err), [])
      | Inr content \<Rightarrow>
          if length content = 0 then (Inr [], [])
          else (case json_Unmarshal_rawMap env content of
                  Inl e \<Rightarrow> (Inl (IndexFileCorruption e), [])
                | Inr rawMap \<Rightarrow> load_entries env rawMap [] []))"

subsection \<open>index.go: the transaction\<close>

type_synonym 'm mutation = "'m \<Rightarrow> effects \<Rightarrow> error option \<times> 'm \<times> effects"

text \<open>\<^verbatim>\<open>UpdateIndexWithMeta\<close>. The callback gets the loaded index and the effects so far and
  returns its error, the index as it left it, and the effects. \<^verbatim>\<open>os.MkdirAll\<close> makes
  \<open>indexDir\<close> exist. \<^verbatim>\<open>defer unlock(l)\<close> has no effect on the results modelled here.
  \<^verbatim>\<open>SafeWriteFile\<close> replaces the content of the index file when it returns nil.\<close>

definition UpdateIndexWithMeta ::
  "'p env \<Rightarrow> index mutation \<Rightarrow> disk \<Rightarrow> effects \<Rightarrow> error option \<times> disk \<times> effects"
where
  "UpdateIndexWithMeta env fn d0 fx =
     (case os_MkdirAll env indexDir of
        Some err \<Rightarrow> (Some (External err), d0, fx)
      | None \<Rightarrow>
          let d = d0\<lparr>stat := (stat d0)(indexDir := None)\<rparr> in
          (case lock env indexPath of
             Some err \<Rightarrow> (Some (External err), d, fx)
           | None \<Rightarrow>
               (case LoadIndexWithMeta env d of
                  (Inl err, out) \<Rightarrow> (Some err, d, fx\<lparr>stdout := stdout fx @ out\<rparr>)
                | (Inr index, out) \<Rightarrow>
                    (case fn index (fx\<lparr>stdout := stdout fx @ out\<rparr>) of
                       (Some err, index', fx') \<Rightarrow> (Some err, d, fx')
                     | (None, index', fx') \<Rightarrow>
                         (case json_MarshalIndent env (map_of index') of
                            Inl e \<Rightarrow> (Some (MarshalIndexFailed e), d, fx')
                          | Inr data \<Rightarrow>
                              (case SafeWriteFile env indexPath data of
                                 Some err \<Rightarrow> (Some (External err), d, fx')
                               | None \<Rightarrow> (None, d\<lparr>indexFile := Inr data\<rparr>, fx')))))))"

subsection \<open>index.go: the legacy adapter\<close>

text \<open>\<^verbatim>\<open>for path, entry := range realIndex { proxy[path] = entry.Hash }\<close>\<close>

fun build_proxy :: "index \<Rightarrow> hashmap \<Rightarrow> hashmap" where
  "build_proxy [] proxy = proxy"
| "build_proxy ((path, entry) # rest) proxy = build_proxy rest (AList.update path (Hash entry) proxy)"

text \<open>\<^verbatim>\<open>for path := range realIndex { if _, exists := proxy[path]; !exists { toDelete = append(toDelete, path) } }\<close>\<close>

fun collect_missing :: "index \<Rightarrow> hashmap \<Rightarrow> string list \<Rightarrow> string list" where
  "collect_missing [] proxy toDelete = toDelete"
| "collect_missing ((path, entry) # rest) proxy toDelete =
     (if map_of proxy path = None then collect_missing rest proxy (toDelete @ [path])
      else collect_missing rest proxy toDelete)"

text \<open>\<^verbatim>\<open>for _, path := range toDelete { delete(index, path) }\<close>\<close>

fun delete_paths :: "string list \<Rightarrow> index \<Rightarrow> index" where
  "delete_paths [] index = index"
| "delete_paths (path # rest) index = delete_paths rest (AList.delete path index)"

text \<open>\<^verbatim>\<open>for path, newHash := range proxy { ... }\<close>: a key that is new, or whose hash differs, gets
  a fresh entry.\<close>

fun apply_hashes :: "hashmap \<Rightarrow> index \<Rightarrow> index" where
  "apply_hashes [] realIndex = realIndex"
| "apply_hashes ((path, newHash) # rest) realIndex =
     (case map_of realIndex path of
        None \<Rightarrow>
          apply_hashes rest (AList.update path \<lparr>Hash = newHash, ModTime = 0, Size = 0\<rparr> realIndex)
      | Some existing \<Rightarrow>
          if Hash existing \<noteq> newHash
          then apply_hashes rest (AList.update path \<lparr>Hash = newHash, ModTime = 0, Size = 0\<rparr> realIndex)
          else apply_hashes rest realIndex)"

text \<open>The function literal that \<^verbatim>\<open>UpdateIndex\<close> hands to \<^verbatim>\<open>UpdateIndexWithMeta\<close>.\<close>

definition UpdateIndex_fn :: "hashmap mutation \<Rightarrow> index mutation" where
  "UpdateIndex_fn fn realIndex fx =
     (case fn (build_proxy realIndex []) fx of
        (Some err, proxy, fx') \<Rightarrow> (Some err, realIndex, fx')
      | (None, proxy, fx') \<Rightarrow>
          let toDelete = collect_missing realIndex proxy [];
              realIndex1 = delete_paths toDelete realIndex
          in (None, apply_hashes proxy realIndex1, fx'))"

definition UpdateIndex ::
  "'p env \<Rightarrow> hashmap mutation \<Rightarrow> disk \<Rightarrow> effects \<Rightarrow> error option \<times> disk \<times> effects"
where
  "UpdateIndex env fn = UpdateIndexWithMeta env (UpdateIndex_fn fn)"

subsection \<open>path/filepath: Walk\<close>

text \<open>\<^verbatim>\<open>filepath.Walk\<close> of the Go standard library, over the tree that \<open>os_Lstat\<close> gives: the
  unexported \<^verbatim>\<open>walk\<close> (here also taking the failed \<^verbatim>\<open>Lstat\<close> of the root) and its loop over
  the names of a directory. A callback gets the path, the \<open>FileInfo\<close> or nil, and the error
  met at that path, and returns nil, \<open>SkipDir\<close>, or an error that ends the walk.\<close>

type_synonym 's WalkFunc = "string \<Rightarrow> FileInfo option \<Rightarrow> oserr option \<Rightarrow> 's \<Rightarrow> error option \<times> 's"

fun walk :: "'p env \<Rightarrow> 's WalkFunc \<Rightarrow> string \<Rightarrow> fstree \<Rightarrow> 's \<Rightarrow> error option \<times> 's"
and walk_names ::
  "'p env \<Rightarrow> 's WalkFunc \<Rightarrow> string \<Rightarrow> (string \<times> fstree) list \<Rightarrow> 's \<Rightarrow> error option \<times> 's"
where
  "walk env walkFn path (LstatFails err) s = walkFn path None (Some err) s"
| "walk env walkFn path (Node info err names) s =
     (if \<not> IsDir info then walkFn path (Some info) None s
      else (case walkFn path (Some info) err s of
              (err1, s1) \<Rightarrow>
                if err \<noteq> None \<or> err1 \<noteq> None then (err1, s1)
                else walk_names env walkFn path names s1))"
| "walk_names env walkFn path [] s = (None, s)"
| "walk_names env walkFn path ((name, t) # rest) s =
     (let filename = filepath_Join env path name in
      case t of
        LstatFails err \<Rightarrow>
          (case walkFn filename None (Some err) s of
             (err', s1) \<Rightarrow>
               if err' \<noteq> None \<and> err' \<noteq> Some SkipDir then (err', s1)
               else walk_names env walkFn path rest s1)
      | Node fileInfo rderr sub \<Rightarrow>
          (case walk env walkFn filename t s of
             (err', s1) \<Rightarrow>
               if err' \<noteq> None \<and> (\<not> IsDir fileInfo \<or> err' \<noteq> Some SkipDir) then (err', s1)
               else walk_names env walkFn path rest s1))"

definition Walk :: "'p env \<Rightarrow> string \<Rightarrow> 's WalkFunc \<Rightarrow> 's \<Rightarrow> error option \<times> 's" where
  "Walk env root fn s =
     (case walk env fn root (os_Lstat env root) s of
        (err, s1) \<Rightarrow> if err = Some SkipDir \<or> err = Some SkipAll then (None, s1) else (err, s1))"

subsection \<open>Package core: what both walkers share\<close>

text \<open>\<^verbatim>\<open>strings.HasPrefix\<close>\<close>

definition HasPrefix :: "string \<Rightarrow> string \<Rightarrow> bool" where
  "HasPrefix s pre = (take (length pre) s = pre)"

text \<open>\<^verbatim>\<open>strings.HasPrefix(cleanPath, RepoDir+string(os.PathSeparator)) || cleanPath == RepoDir\<close>\<close>

definition in_RepoDir :: "'p env \<Rightarrow> string \<Rightarrow> bool" where
  "in_RepoDir env cleanPath =
     (HasPrefix cleanPath (RepoDir env @ [PathSeparator env]) \<or> cleanPath = RepoDir env)"

text \<open>The test of the fast path:
  \<^verbatim>\<open>entry, exists := index[cleanPath]\<close>, then
  \<^verbatim>\<open>entry.Size == info.Size() && entry.ModTime == info.ModTime().Unix()\<close>.\<close>

definition metadata_unchanged :: "index \<Rightarrow> string \<Rightarrow> FileInfo \<Rightarrow> bool" where
  "metadata_unchanged index cleanPath info =
     (case map_of index cleanPath of
        None \<Rightarrow> False
      | Some entry \<Rightarrow> Size entry = info_Size info \<and> ModTime entry = info_ModTime_Unix info)"

definition new_entry :: "string \<Rightarrow> FileInfo \<Rightarrow> IndexEntry" where
  "new_entry hash info = \<lparr>Hash = hash, ModTime = info_ModTime_Unix info, Size = info_Size info\<rparr>"

definition record_hash_call :: "string \<Rightarrow> effects \<Rightarrow> effects" where
  "record_hash_call fullPath fx = fx\<lparr>hashed := hashed fx @ [fullPath]\<rparr>"

subsection \<open>Package core: AddFile\<close>

text \<open>The callback that \<^verbatim>\<open>AddFile\<close> hands to \<^verbatim>\<open>filepath.Walk\<close>; its state is the index of the
  transaction and the effects.\<close>

definition AddFile_walkFn ::
  "'p env \<Rightarrow> string \<Rightarrow> 'p \<Rightarrow> hashmap \<Rightarrow> (index \<times> effects) WalkFunc"
where
  "AddFile_walkFn env absRepoRoot ignorePatterns proxyIndex fullPath info err s =
     (case err of
        Some e \<Rightarrow> (Some (External e), s)
      | None \<Rightarrow>
          (case filepath_Rel env absRepoRoot fullPath of
             Inl e \<Rightarrow> (Some (OutsideRepository fullPath), s)
           | Inr relPath \<Rightarrow>
               let cleanPath = filepath_Clean env relPath in
               if cleanPath = ''.'' then (None, s)
               else (case info of
                       None \<Rightarrow> (Some NilFileInfo, s)
                     | Some info \<Rightarrow>
                         if in_RepoDir env cleanPath
                         then (if IsDir info then (Some SkipDir, s) else (None, s))
                         else if IsDir info then (None, s)
                         else if \<not> IsSafePath env cleanPath then (None, s)
                         else if ShouldIgnore env cleanPath ignorePatterns (map_of proxyIndex) then (None, s)
                         else if metadata_unchanged (fst s) cleanPath info then (None, s)
                         else (case HashAndStoreFile env fullPath of
                                 Inl e \<Rightarrow>
                                   (Some (FailedToHash fullPath e),
                                    (fst s, record_hash_call fullPath (snd s)))
                               | Inr hash \<Rightarrow>
                                   (None,
                                    (AList.update cleanPath (new_entry hash info) (fst s),
                                     record_hash_call fullPath (snd s)))))))"

text \<open>The function literal that \<^verbatim>\<open>AddFile\<close> hands to \<^verbatim>\<open>UpdateIndexWithMeta\<close>.\<close>

definition AddFile_fn :: "'p env \<Rightarrow> string \<Rightarrow> string \<Rightarrow> index mutation" where
  "AddFile_fn env absInputPath absRepoRoot index fx =
     (case LoadIgnorePatterns env of
        Inl e \<Rightarrow> (Some (External e), index, fx)
      | Inr ignorePatterns \<Rightarrow>
          let proxyIndex = build_proxy index [] in
          (case Walk env absInputPath
                  (AddFile_walkFn env absRepoRoot ignorePatterns proxyIndex) (index, fx) of
             (err, index', fx') \<Rightarrow> (err, index', fx')))"

definition AddFile ::
  "'p env \<Rightarrow> string \<Rightarrow> disk \<Rightarrow> effects \<Rightarrow> error option \<times> disk \<times> effects"
where
  "AddFile env inputPath d fx =
     (if os_IsNotExist (stat d (RepoDir env)) then (Some NotAKitcatRepository, d, fx)
      else (case filepath_Abs env inputPath of
              Inl e \<Rightarrow> (Some (ResolveAbsolutePathFailed e), d, fx)
            | Inr absInputPath \<Rightarrow>
                (case filepath_Abs env ''.'' of
                   Inl e \<Rightarrow> (Some (ResolveRepoRootFailed e), d, fx)
                 | Inr absRepoRoot \<Rightarrow>
                     if os_IsNotExist (stat d absInputPath)
                     then (Some (PathDoesNotExist inputPath), d, fx)
                     else UpdateIndexWithMeta env
                            (AddFile_fn env absInputPath absRepoRoot) d fx)))"

subsection \<open>Package core: AddAll\<close>

text \<open>\<^verbatim>\<open>seen[p]\<close> on a \<^verbatim>\<open>map[string]bool\<close>: false for a missing key.\<close>

definition seen_at :: "(string \<rightharpoonup> bool) \<Rightarrow> string \<Rightarrow> bool" where
  "seen_at seen p = (case seen p of None \<Rightarrow> False | Some b \<Rightarrow> b)"

definition could_not_add_warning :: "string \<Rightarrow> oserr \<Rightarrow> string" where
  "could_not_add_warning cleanPath e =
     ''warning: could not add file '' @ cleanPath @ '': '' @ oserr_Error e @ [CHR 0x0A]"

text \<open>The callback that \<^verbatim>\<open>AddAll\<close> hands to \<^verbatim>\<open>filepath.Walk\<close>; its state is the index, the
  map \<^verbatim>\<open>seen\<close> and the effects.\<close>

definition AddAll_walkFn ::
  "'p env \<Rightarrow> string \<Rightarrow> 'p \<Rightarrow> hashmap \<Rightarrow> (index \<times> (string \<rightharpoonup> bool) \<times> effects) WalkFunc"
where
  "AddAll_walkFn env rootDir ignorePatterns proxyIndex fullPath info err s =
     (case err of
        Some e \<Rightarrow> (Some (External e), s)
      | None \<Rightarrow>
          (case filepath_Rel env rootDir fullPath of
             Inl e \<Rightarrow> (None, s)
           | Inr relPath \<Rightarrow>
               let cleanPath = filepath_Clean env relPath in
               if cleanPath = ''.'' then (None, s)
               else if \<not> IsSafePath env cleanPath then (None, s)
               else (case info of
                       None \<Rightarrow> (Some NilFileInfo, s)
                     | Some info \<Rightarrow>
                         if in_RepoDir env cleanPath
                         then (if IsDir info then (Some SkipDir, s) else (None, s))
                         else if IsDir info then (None, s)
                         else if ShouldIgnore env cleanPath ignorePatterns (map_of proxyIndex) then (None, s)
                         else
                           (case s of
                              (index, seen0, fx) \<Rightarrow>
                                let seen = seen0(cleanPath \<mapsto> True) in
                                if metadata_unchanged index cleanPath info then (None, (index, seen, fx))
                                else (case HashAndStoreFile env fullPath of
                                        Inl e \<Rightarrow>
                                          (None,
                                           (index, seen,
                                            (record_hash_call fullPath fx)
                                              \<lparr>stdout := stdout fx @ [could_not_add_warning cleanPath e]\<rparr>))
                                      | Inr hash \<Rightarrow>
                                          (None,
                                           (AList.update cleanPath (new_entry hash info) index, seen,
                                            record_hash_call fullPath fx)))))))"

text \<open>\<^verbatim>\<open>for pathInIndex := range index { if !seen[pathInIndex] { toDelete = append(toDelete, pathInIndex) } }\<close>\<close>

fun collect_unseen :: "index \<Rightarrow> (string \<rightharpoonup> bool) \<Rightarrow> string list \<Rightarrow> string list" where
  "collect_unseen [] seen toDelete = toDelete"
| "collect_unseen ((pathInIndex, entry) # rest) seen toDelete =
     (if \<not> seen_at seen pathInIndex then collect_unseen rest seen (toDelete @ [pathInIndex])
      else collect_unseen rest seen toDelete)"

text \<open>The function literal that \<^verbatim>\<open>AddAll\<close> hands to \<^verbatim>\<open>UpdateIndexWithMeta\<close>.\<close>

definition AddAll_fn :: "'p env \<Rightarrow> index mutation" where
  "AddAll_fn env index fx =
     (case LoadIgnorePatterns env of
        Inl e \<Rightarrow> (Some (External e), index, fx)
      | Inr ignorePatterns \<Rightarrow>
          let proxyIndex = build_proxy index [] in
          (case filepath_Abs env ''.'' of
             Inl e \<Rightarrow> (Some (ResolveAbsolutePathFailed e), index, fx)
           | Inr rootDir \<Rightarrow>
               (case Walk env rootDir
                       (AddAll_walkFn env rootDir ignorePatterns proxyIndex)
                       (index, Map.empty, fx) of
                  (Some err, index', seen, fx') \<Rightarrow> (Some err, index', fx')
                | (None, index', seen, fx') \<Rightarrow>
                    (None, delete_paths (collect_unseen index' seen []) index', fx'))))"

definition AddAll :: "'p env \<Rightarrow> disk \<Rightarrow> effects \<Rightarrow> error option \<times> disk \<times> effects" where
  "AddAll env = UpdateIndexWithMeta env (AddAll_fn env)"

subsection \<open>What a walk can meet, and what AddAll accepts\<close>

text \<open>The paths at and below \<open>path\<close> for which \<^verbatim>\<open>Lstat\<close> succeeds, each with its
  \<open>FileInfo\<close>, as far as a walk descends: not into a directory that cannot be read, and
  not into one at which the callback returns \<open>SkipDir\<close> (\<open>skips\<close>).\<close>

fun walked_nodes :: "'p env \<Rightarrow> (string \<Rightarrow> bool) \<Rightarrow> string \<Rightarrow> fstree \<Rightarrow> (string \<times> FileInfo) set"
where
  "walked_nodes env skips path (LstatFails err) = {}"
| "walked_nodes env skips path (Node info err names) =
     insert (path, info)
       (if IsDir info \<and> err = None \<and> \<not> skips path
        then (\<Union>(name, t) \<in> set names. walked_nodes env skips (filepath_Join env path name) t)
        else {})"

text \<open>The directories at which the callback of \<^verbatim>\<open>AddAll\<close> returns \<open>SkipDir\<close>: those whose
  canonical path is safe and is the repository directory or lies in it.\<close>

definition AddAll_skips :: "'p env \<Rightarrow> string \<Rightarrow> string \<Rightarrow> bool" where
  "AddAll_skips env rootDir fullPath =
     (case filepath_Rel env rootDir fullPath of
        Inl e \<Rightarrow> False
      | Inr relPath \<Rightarrow>
          filepath_Clean env relPath \<noteq> ''.'' \<and> IsSafePath env (filepath_Clean env relPath)
          \<and> in_RepoDir env (filepath_Clean env relPath))"

text \<open>The tests of the callback of \<^verbatim>\<open>AddAll\<close> that come before \<^verbatim>\<open>seen[cleanPath] = true\<close>:
  the file at \<open>fullPath\<close> has the canonical path \<open>cleanPath\<close>, which is not the root, is safe,
  lies outside the repository directory and is not ignored, and it is not a directory.\<close>

definition accepted ::
  "'p env \<Rightarrow> string \<Rightarrow> 'p \<Rightarrow> hashmap \<Rightarrow> string \<Rightarrow> FileInfo \<Rightarrow> string \<Rightarrow> bool"
where
  "accepted env rootDir ignorePatterns proxyIndex fullPath info cleanPath =
     (case filepath_Rel env rootDir fullPath of
        Inl e \<Rightarrow> False
      | Inr relPath \<Rightarrow>
          cleanPath = filepath_Clean env relPath \<and> cleanPath \<noteq> ''.''
          \<and> IsSafePath env cleanPath \<and> \<not> in_RepoDir env cleanPath \<and> \<not> IsDir info
          \<and> \<not> ShouldIgnore env cleanPath ignorePatterns (map_of proxyIndex))"

subsection \<open>Auxiliary notions for the walk\<close>

text \<open>The test after which the loop over the names of a directory returns: the entry gave an
  error and it is not a directory that asked to be skipped.\<close>

definition ends_loop :: "fstree \<Rightarrow> error option \<Rightarrow> bool" where
  "ends_loop t err' =
     (err' \<noteq> None
      \<and> (case t of
            LstatFails e \<Rightarrow> err' \<noteq> Some SkipDir
          | Node fileInfo rderr sub \<Rightarrow> \<not> IsDir fileInfo \<or> err' \<noteq> Some SkipDir))"

text \<open>The results of a callback that are not failures: nil and the two sentinels.\<close>

definition no_error :: "error option \<Rightarrow> bool" where
  "no_error r = (r = None \<or> r = Some SkipDir \<or> r = Some SkipAll)"

subsection \<open>Auxiliary notions for staging twice\<close>

text \<open>The metadata of an entry, if there is one.\<close>

definition meta_of :: "IndexEntry option \<Rightarrow> (64 word \<times> 64 word) option" where
  "meta_of entry = map_option (\<lambda>e. (Size e, ModTime e)) entry"

text \<open>How the entries of one path in two runs of the same walk are related, the first run
  started with \<open>x0\<close> and the second with \<open>y0\<close>: nothing has been stored yet in either run, or
  the two entries carry the same metadata and then they are equal, or only the second run has
  stored (its start had other metadata), or only the first run has.\<close>

definition replay ::
  "IndexEntry option \<Rightarrow> IndexEntry option \<Rightarrow> IndexEntry option \<Rightarrow> IndexEntry option \<Rightarrow> bool"
where
  "replay x0 y0 x y =
     ((x = x0 \<and> y = y0)
      \<or> (meta_of x = meta_of y
          \<and> (x = y \<or> (x = x0 \<and> meta_of y0 \<noteq> meta_of y) \<or> y = y0)))"

definition replay_states ::
  "index \<Rightarrow> index \<Rightarrow> index \<times> (string \<rightharpoonup> bool) \<times> effects
   \<Rightarrow> index \<times> (string \<rightharpoonup> bool) \<times> effects \<Rightarrow> bool"
where
  "replay_states start1 start2 s1 s2 =
     (fst (snd s1) = fst (snd s2)
      \<and> (\<forall>p. replay (map_of start1 p) (map_of start2 p) (map_of (fst s1) p) (map_of (fst s2) p)))"

subsection \<open>A sample environment\<close>

text \<open>A small repository at \<^verbatim>\<open>/repo\<close>, used for the closed instances of the theorems below. The
  decoders and the serialiser are tables over the few byte strings that occur there.\<close>

definition quoted :: "string \<Rightarrow> bytes" where
  "quoted s = CHR 0x22 # s @ [CHR 0x22]"

definition ascii_space :: "char \<Rightarrow> bool" where
  "ascii_space c = (c \<in> set [CHR 0x09, CHR 0x0A, CHR 0x0B, CHR 0x0C, CHR 0x0D, CHR 0x20])"

definition ascii_TrimSpace :: "bytes \<Rightarrow> bytes" where
  "ascii_TrimSpace b = rev (dropWhile ascii_space (rev (dropWhile ascii_space b)))"

definition legacy_value :: bytes where
  "legacy_value = quoted ''h1''"

definition rich_value :: bytes where
  "rich_value = ''{'' @ quoted ''h'' @ '':'' @ quoted ''h2'' @ '','' @ quoted ''m'' @ '':7,''
                 @ quoted ''s'' @ '':3}''"

definition ill_typed_value :: bytes where
  "ill_typed_value = ''{'' @ quoted ''h'' @ '':5}''"

definition mixed_content :: bytes where
  "mixed_content = ''{'' @ quoted ''a.txt'' @ '':'' @ legacy_value @ '','' @ quoted ''b.txt'' @ '':''
                    @ rich_value @ '','' @ quoted ''c'' @ '': 17}''"

definition ill_typed_content :: bytes where
  "ill_typed_content = ''{'' @ quoted ''a.txt'' @ '':'' @ legacy_value @ '','' @ quoted ''bad'' @ '':''
                        @ ill_typed_value @ ''}''"

definition staged_value :: bytes where
  "staged_value = ''{'' @ quoted ''h'' @ '':'' @ quoted ''sha:/repo/a.txt'' @ '','' @ quoted ''m''
                   @ '':100,'' @ quoted ''s'' @ '':5}''"

definition staged_content :: bytes where
  "staged_content = ''{'' @ quoted ''a.txt'' @ '':'' @ staged_value @ ''}''"

definition staged_entry :: IndexEntry where
  "staged_entry = \<lparr>Hash = ''sha:/repo/a.txt'', ModTime = 100, Size = 5\<rparr>"

definition sample_Unmarshal_rawMap :: "bytes \<Rightarrow> string + (string \<times> bytes) list" where
  "sample_Unmarshal_rawMap content =
     (if content = mixed_content
      then Inr [(''a.txt'', legacy_value), (''b.txt'', rich_value), (''c'', '' 17'')]
      else if content = ill_typed_content
      then Inr [(''a.txt'', legacy_value), (''bad'', ill_typed_value)]
      else if content = staged_content then Inr [(''a.txt'', staged_value)]
      else if content = ''{}'' then Inr []
      else Inl ''invalid character'')"

definition sample_Unmarshal_string :: "bytes \<Rightarrow> string + string" where
  "sample_Unmarshal_string v =
     (if 2 \<le> length v \<and> hd v = CHR 0x22 \<and> last v = CHR 0x22 then Inr (butlast (tl v))
      else Inl ''unexpected end of JSON input'')"

definition sample_Unmarshal_IndexEntry :: "bytes \<Rightarrow> string + IndexEntry" where
  "sample_Unmarshal_IndexEntry v =
     (if v = rich_value then Inr \<lparr>Hash = ''h2'', ModTime = 7, Size = 3\<rparr>
      else if v = staged_value then Inr staged_entry
      else Inl ''cannot unmarshal number into Go struct field IndexEntry.h of type string'')"

definition sample_MarshalIndent :: "(string \<rightharpoonup> IndexEntry) \<Rightarrow> string + bytes" where
  "sample_MarshalIndent m =
     (if m ''a.txt'' = Some staged_entry \<and> m ''bad.bin'' = None \<and> m ''build.log'' = None
         \<and> m ''old.txt'' = None
      then Inr staged_content
      else if m ''a.txt'' = None \<and> m ''bad.bin'' = None \<and> m ''build.log'' = None
         \<and> m ''old.txt'' = None
      then Inr ''{}''
      else Inl ''unsupported value'')"

definition file_info :: "64 word \<Rightarrow> 64 word \<Rightarrow> FileInfo" where
  "file_info sz mtime = \<lparr>IsDir = False, info_Size = sz, info_ModTime_Unix = mtime\<rparr>"

definition dir_info :: FileInfo where
  "dir_info = \<lparr>IsDir = True, info_Size = 4096, info_ModTime_Unix = 50\<rparr>"

definition file_a :: fstree where
  "file_a = Node (file_info 5 100) None []"

text \<open>The working tree: the repository directory, a file to stage, a file that cannot be read,
  and a file that the ignore rules exclude.\<close>

definition sample_tree :: fstree where
  "sample_tree =
     Node dir_info None
       [(''.kitcat'', Node dir_info None [(''index'', Node (file_info 40 60) None [])]),
        (''a.txt'', file_a),
        (''bad.bin'', Node (file_info 9 200) None []),
        (''build.log'', Node (file_info 3 300) None [])]"

text \<open>The same directory before \<^verbatim>\<open>kitcat init\<close>: no \<^verbatim>\<open>.kitcat\<close>.\<close>

definition bare_tree :: fstree where
  "bare_tree = Node dir_info None [(''a.txt'', file_a)]"

definition sample_env :: "string list env" where
  "sample_env =
     \<lparr>RepoDir = ''.kitcat'',
      PathSeparator = CHR ''/'',
      IsSafePath = (\<lambda>p. \<not> HasPrefix p ''..''),
      LoadIgnorePatterns = Inr [''build.log''],
      ShouldIgnore = (\<lambda>p patterns tracked. p \<in> set patterns \<and> tracked p = None),
      HashAndStoreFile =
        (\<lambda>p. if p = ''/repo/bad.bin'' then Inl ErrPermission else Inr (''sha:'' @ p)),
      lock = (\<lambda>p. None),
      SafeWriteFile = (\<lambda>p data. None),
      os_MkdirAll = (\<lambda>p. None),
      os_Lstat =
        (\<lambda>p. if p = ''/repo'' then sample_tree
             else if p = ''/repo/a.txt'' then file_a
             else if p = ''/repo/bad.bin'' then Node (file_info 9 200) None []
             else LstatFails ErrNotExist),
      filepath_Abs = (\<lambda>p. if p = ''.'' then Inr ''/repo'' else Inr (''/repo/'' @ p)),
      filepath_Rel =
        (\<lambda>base target.
           if target = base then Inr ''.''
           else if HasPrefix target (base @ ''/'') then Inr (drop (length base + 1) target)
           else Inl (ErrOther ''Rel: cannot make path relative'')),
      filepath_Clean = (\<lambda>p. p),
      filepath_Join = (\<lambda>dir name. dir @ ''/'' @ name),
      bytes_TrimSpace = ascii_TrimSpace,
      json_Unmarshal_rawMap = sample_Unmarshal_rawMap,
      json_Unmarshal_string = sample_Unmarshal_string,
      json_Unmarshal_IndexEntry = sample_Unmarshal_IndexEntry,
      json_MarshalIndent = sample_MarshalIndent\<rparr>"

definition bare_env :: "string list env" where
  "bare_env =
     sample_env\<lparr>os_Lstat := (\<lambda>p. if p = ''/repo'' then bare_tree else LstatFails ErrNotExist)\<rparr>"

definition no_effects :: effects where
  "no_effects = \<lparr>stdout = [], hashed = []\<rparr>"

text \<open>A directory that holds no repository: nothing exists yet, and there is no index file.\<close>

definition bare_disk :: disk where
  "bare_disk = \<lparr>stat = (\<lambda>p. Some ErrNotExist), indexFile = Inl ErrNotExist\<rparr>"

text \<open>An initialised repository whose index file holds the given bytes.\<close>

definition repo_disk :: "bytes \<Rightarrow> disk" where
  "repo_disk content = \<lparr>stat = (\<lambda>p. None), indexFile = Inr content\<rparr>"

text \<open>A mutation that reports failure after touching its copy of the index.\<close>

definition failing_mutation :: "index mutation" where
  "failing_mutation index fx = (Some (External ErrPermission), AList.delete ''a.txt'' index, fx)"

text \<open>A rich index with three entries, and a legacy callback that drops \<^verbatim>\<open>a.txt\<close>, gives
  \<^verbatim>\<open>b.txt\<close> another hash, adds \<^verbatim>\<open>new.txt\<close> and leaves \<^verbatim>\<open>c.txt\<close> alone.\<close>

definition three_entries :: index where
  "three_entries =
     [(''a.txt'', \<lparr>Hash = ''h1'', ModTime = 0, Size = 0\<rparr>),
      (''b.txt'', \<lparr>Hash = ''h2'', ModTime = 7, Size = 3\<rparr>),
      (''c.txt'', \<lparr>Hash = ''h3'', ModTime = 8, Size = 4\<rparr>)]"

definition legacy_mutation :: "hashmap mutation" where
  "legacy_mutation proxy fx =
     (None,
      AList.update ''new.txt'' ''h9'' (AList.update ''b.txt'' ''h2x'' (AList.delete ''a.txt'' proxy)),
      fx)"

text \<open>The sample environment with an ignore predicate that looks at the patterns only, and an
  index that still tracks a file that is gone (\<^verbatim>\<open>old.txt\<close>) and a file that the patterns now
  exclude (\<^verbatim>\<open>build.log\<close>).\<close>

definition pattern_env :: "string list env" where
  "pattern_env = sample_env\<lparr>ShouldIgnore := (\<lambda>p patterns tracked. p \<in> set patterns)\<rparr>"

definition stale_index :: index where
  "stale_index =
     [(''a.txt'', staged_entry),
      (''build.log'', \<lparr>Hash = ''h4'', ModTime = 300, Size = 3\<rparr>),
      (''old.txt'', \<lparr>Hash = ''h5'', ModTime = 90, Size = 6\<rparr>)]"

text \<open>The sample environment in a working directory whose absolute path cannot be found.\<close>

definition unresolvable_env :: "string list env" where
  "unresolvable_env = sample_env\<lparr>filepath_Abs := (\<lambda>p. Inl ErrPermission)\<rparr>"

section \<open>Properties\<close>

lemmas sample_defs = sample_env_def sample_Unmarshal_rawMap_def sample_Unmarshal_string_def
  sample_Unmarshal_IndexEntry_def sample_MarshalIndent_def mixed_content_def ill_typed_content_def
  legacy_value_def rich_value_def ill_typed_value_def quoted_def ascii_TrimSpace_def ascii_space_def
  staged_value_def staged_content_def staged_entry_def

subsection \<open>The transaction\<close>

lemma LoadIndexWithMeta_stat [simp]:
  "LoadIndexWithMeta env (d\<lparr>stat := f\<rparr>) = LoadIndexWithMeta env d"
  by (simp add: LoadIndexWithMeta_def)

lemma sample_load_mixed:
  "LoadIndexWithMeta sample_env (repo_disk mixed_content) =
     (Inr [(''a.txt'', \<lparr>Hash = ''h1'', ModTime = 0, Size = 0\<rparr>),
           (''b.txt'', \<lparr>Hash = ''h2'', ModTime = 7, Size = 3\<rparr>)],
      [unknown_format_warning ''c''])"
  by (simp add: LoadIndexWithMeta_def repo_disk_def sample_defs)

text \<open>
  C1. Whatever the mutation callback is: when the transaction reaches it (the directory could be
  made, the lock taken, the index loaded) and the callback returns an error, then
  \<open>UpdateIndexWithMeta\<close> returns that very error and the index file holds what it held before
  the call; no write happened. The effects are those the callback left.
\<close>

theorem UpdateIndexWithMeta_error_no_write:
  assumes "os_MkdirAll env indexDir = None" and "lock env indexPath = None"
    and "LoadIndexWithMeta env d = (Inr index, out)"
    and "fn index (fx\<lparr>stdout := stdout fx @ out\<rparr>) = (Some err, index', fx')"
  shows "fst (UpdateIndexWithMeta env fn d fx) = Some err
       \<and> indexFile (fst (snd (UpdateIndexWithMeta env fn d fx))) = indexFile d
       \<and> snd (snd (UpdateIndexWithMeta env fn d fx)) = fx'"
  using assms by (simp add: UpdateIndexWithMeta_def)

theorem UpdateIndexWithMeta_error_no_write_witness:
  "os_MkdirAll sample_env indexDir = None \<and> lock sample_env indexPath = None
   \<and> fst (LoadIndexWithMeta sample_env (repo_disk mixed_content))
       = Inr [(''a.txt'', \<lparr>Hash = ''h1'', ModTime = 0, Size = 0\<rparr>),
              (''b.txt'', \<lparr>Hash = ''h2'', ModTime = 7, Size = 3\<rparr>)]
   \<and> fst (UpdateIndexWithMeta sample_env failing_mutation (repo_disk mixed_content) no_effects)
       = Some (External ErrPermission)
   \<and> indexFile (fst (snd (UpdateIndexWithMeta sample_env failing_mutation
                              (repo_disk mixed_content) no_effects)))
       = Inr mixed_content"
proof -
  have h1: "os_MkdirAll sample_env indexDir = None" and h2: "lock sample_env indexPath = None"
    by (simp_all add: sample_env_def)
  have h4: "failing_mutation
              [(''a.txt'', \<lparr>Hash = ''h1'', ModTime = 0, Size = 0\<rparr>),
               (''b.txt'', \<lparr>Hash = ''h2'', ModTime = 7, Size = 3\<rparr>)]
              (no_effects\<lparr>stdout := stdout no_effects @ [unknown_format_warning ''c'']\<rparr>)
            = (Some (External ErrPermission),
               AList.delete ''a.txt''
                 [(''a.txt'', \<lparr>Hash = ''h1'', ModTime = 0, Size = 0\<rparr>),
                  (''b.txt'', \<lparr>Hash = ''h2'', ModTime = 7, Size = 3\<rparr>)],
               no_effects\<lparr>stdout := stdout no_effects @ [unknown_format_warning ''c'']\<rparr>)"
    by (simp add: failing_mutation_def)
  have h5: "indexFile (repo_disk mixed_content) = Inr mixed_content"
    by (simp add: repo_disk_def)
  show ?thesis
    using UpdateIndexWithMeta_error_no_write
            [where fn = failing_mutation and fx = no_effects, OF h1 h2 sample_load_mixed h4] h1 h2
    by (simp add: sample_load_mixed h5)
qed

subsection \<open>Loading\<close>

lemma load_entries_frame:
  "load_entries env raws idx out = (Inr index, out') \<Longrightarrow> path \<notin> fst ` set raws
   \<Longrightarrow> map_of index path = map_of idx path"
proof (induction raws arbitrary: idx out)
  case Nil
  then show ?case by simp
next
  case (Cons a raws)
  obtain p r where a: "a = (p, r)" by (cases a)
  from Cons.prems show ?case
    unfolding a
    by (auto simp: Let_def update_conv' split: if_splits sum.splits dest!: Cons.IH)
qed

text \<open>What one entry of the raw map becomes, when the load succeeds.\<close>

lemma load_entries_entry:
  assumes "load_entries env raws idx out = (Inr index, out')"
    and "distinct (map fst raws)" and "(path, raw) \<in> set raws"
    and "bytes_TrimSpace env raw = v" and "v \<noteq> []"
  shows "(hd v = CHR 0x22 \<longrightarrow>
            (\<exists>hash. json_Unmarshal_string env v = Inr hash
               \<and> map_of index path = Some \<lparr>Hash = hash, ModTime = 0, Size = 0\<rparr>))
       \<and> (hd v \<noteq> CHR 0x22 \<and> hd v = CHR 0x7B \<longrightarrow>
            (\<exists>entry. json_Unmarshal_IndexEntry env v = Inr entry \<and> map_of index path = Some entry))
       \<and> (hd v \<noteq> CHR 0x22 \<and> hd v \<noteq> CHR 0x7B \<longrightarrow> map_of index path = map_of idx path)"
  using assms
proof (induction raws arbitrary: idx out)
  case Nil
  then show ?case by simp
next
  case (Cons a raws)
  obtain p r where a: "a = (p, r)" by (cases a)
  show ?case
  proof (cases "(path, raw) = a")
    case True
    with a have pr: "p = path" "r = raw" by auto
    from Cons.prems(2) have notin: "path \<notin> fst ` set raws" by (auto simp: a pr)
    from Cons.prems(1,4,5) show ?thesis
      unfolding a pr
      by (auto simp: Let_def update_conv' split: sum.splits if_splits
               dest!: load_entries_frame[OF _ notin])
  next
    case False
    with Cons.prems have rest: "(path, raw) \<in> set raws" "distinct (map fst raws)" by auto
    from Cons.prems(2,3) False have ne: "p \<noteq> path" by (force simp: a)
    from Cons.prems(1) obtain idx1 out1 where
      l: "load_entries env raws idx1 out1 = (Inr index, out')"
      and i: "map_of idx1 path = map_of idx path"
      unfolding a using ne by (auto simp: Let_def update_conv' split: if_splits sum.splits)
    from Cons.IH[OF l rest(2) rest(1) Cons.prems(4,5)] i show ?thesis by simp
  qed
qed

lemma load_entries_out_mono:
  "load_entries env raws idx out = (r, out') \<Longrightarrow> set out \<subseteq> set out'"
proof (induction raws arbitrary: idx out)
  case Nil
  then show ?case by simp
next
  case (Cons a raws)
  obtain p r where a: "a = (p, r)" by (cases a)
  from Cons.prems show ?case unfolding a
    by (auto simp: Let_def split: if_splits sum.splits dest!: Cons.IH)
qed

text \<open>The lines printed so far have no influence on the index that is built.\<close>

lemma load_entries_out_irrelevant:
  "fst (load_entries env raws idx out) = fst (load_entries env raws idx out2)"
proof (induction raws arbitrary: idx out out2)
  case Nil
  then show ?case by simp
next
  case (Cons a raws)
  obtain p r where a: "a = (p, r)" by (cases a)
  show ?case unfolding a
    by (simp add: Let_def Cons.IH[of _ out out2]
          Cons.IH[of _ "out @ [unknown_format_warning p]" "out2 @ [unknown_format_warning p]"]
          split: sum.splits)
qed

text \<open>An entry of unrecognised shape changes nothing but the output.\<close>

lemma load_entries_skip:
  assumes "bytes_TrimSpace env raw \<noteq> []"
    and "hd (bytes_TrimSpace env raw) \<noteq> CHR 0x22" and "hd (bytes_TrimSpace env raw) \<noteq> CHR 0x7B"
  shows "fst (load_entries env (xs @ (path, raw) # ys) idx out)
         = fst (load_entries env (xs @ ys) idx out)"
proof (induction xs arbitrary: idx out)
  case Nil
  show ?case using assms
    by (simp add: Let_def
          load_entries_out_irrelevant[of env ys idx "out @ [unknown_format_warning path]" out])
next
  case (Cons a xs)
  obtain p r where a: "a = (p, r)" by (cases a)
  show ?case unfolding a
    by (auto simp: Let_def Cons.IH split: sum.splits)
qed

lemma load_entries_skip_warns:
  assumes "bytes_TrimSpace env raw \<noteq> []"
    and "hd (bytes_TrimSpace env raw) \<noteq> CHR 0x22" and "hd (bytes_TrimSpace env raw) \<noteq> CHR 0x7B"
    and "load_entries env (xs @ (path, raw) # ys) idx out = (Inr index, out')"
  shows "unknown_format_warning path \<in> set out'"
  using assms(4)
proof (induction xs arbitrary: idx out)
  case Nil
  then show ?case using assms(1-3) by (auto simp: Let_def dest!: load_entries_out_mono)
next
  case (Cons a xs)
  obtain p r where a: "a = (p, r)" by (cases a)
  from Cons.prems show ?case unfolding a
    by (auto simp: Let_def split: sum.splits if_splits dest!: Cons.IH)
qed

text \<open>An entry of a recognised shape that does not decode fails the load.\<close>

lemma load_entries_decode_failure:
  assumes "(path, raw) \<in> set raws" and "bytes_TrimSpace env raw = v" and "v \<noteq> []"
    and "(hd v = CHR 0x22 \<and> json_Unmarshal_string env v = Inl e)
       \<or> (hd v = CHR 0x7B \<and> json_Unmarshal_IndexEntry env v = Inl e)"
  shows "\<exists>p' e'. fst (load_entries env raws idx out) = Inl (DecodeLegacyEntryFailed p' e')
               \<or> fst (load_entries env raws idx out) = Inl (DecodeEntryFailed p' e')"
  using assms
proof (induction raws arbitrary: idx out)
  case Nil
  then show ?case by simp
next
  case (Cons a raws)
  obtain p r where a: "a = (p, r)" by (cases a)
  show ?case
  proof (cases "(path, raw) = a")
    case True
    with a have pr: "p = path" "r = raw" by auto
    from Cons.prems(2,3,4) show ?thesis unfolding a pr
      by (auto simp: Let_def)
  next
    case False
    with Cons.prems have rest: "(path, raw) \<in> set raws" by auto
    note IH = Cons.IH[OF rest Cons.prems(2,3,4)]
    show ?thesis unfolding a using IH
      by (auto simp: Let_def split: sum.splits)
  qed
qed

lemma LoadIndexWithMeta_content:
  "indexFile d = Inr content \<Longrightarrow> content \<noteq> [] \<Longrightarrow> json_Unmarshal_rawMap env content = Inr rawMap
   \<Longrightarrow> LoadIndexWithMeta env d = load_entries env rawMap [] []"
  by (simp add: LoadIndexWithMeta_def)

text \<open>
  C3. Let the index file hold a document whose raw map gives \<open>path\<close> the value \<open>rawValue\<close>,
  and let \<open>v\<close>, not empty, be that value without the surrounding white space. When the load
  succeeds: if \<open>v\<close> starts with a quote, \<open>v\<close> decodes as a string \<open>hash\<close> and the index maps
  \<open>path\<close> to the entry with that hash, \<open>ModTime = 0\<close> and \<open>Size = 0\<close>; if \<open>v\<close> starts with an
  opening brace, \<open>v\<close> decodes as an \<open>IndexEntry\<close> and the index maps \<open>path\<close> to exactly that
  entry.
\<close>

theorem LoadIndexWithMeta_dispatch:
  assumes "indexFile d = Inr content" and "content \<noteq> []"
    and "json_Unmarshal_rawMap env content = Inr rawMap" and "distinct (map fst rawMap)"
    and "(path, rawValue) \<in> set rawMap"
    and "bytes_TrimSpace env rawValue = v" and "v \<noteq> []"
    and "LoadIndexWithMeta env d = (Inr index, out)"
  shows "(hd v = CHR 0x22 \<longrightarrow>
            (\<exists>hash. json_Unmarshal_string env v = Inr hash
               \<and> map_of index path = Some \<lparr>Hash = hash, ModTime = 0, Size = 0\<rparr>))
       \<and> (hd v = CHR 0x7B \<longrightarrow>
            (\<exists>entry. json_Unmarshal_IndexEntry env v = Inr entry \<and> map_of index path = Some entry))"
proof -
  from assms(8) have "load_entries env rawMap [] [] = (Inr index, out)"
    by (simp add: LoadIndexWithMeta_content[OF assms(1-3)])
  from load_entries_entry[OF this assms(4-7)] show ?thesis by auto
qed

lemma sample_rawMap_mixed:
  "json_Unmarshal_rawMap sample_env mixed_content
   = Inr [(''a.txt'', legacy_value), (''b.txt'', rich_value), (''c'', '' 17'')]"
  by (simp add: sample_env_def sample_Unmarshal_rawMap_def)

lemma sample_trim:
  "bytes_TrimSpace sample_env legacy_value = legacy_value"
  "bytes_TrimSpace sample_env rich_value = rich_value"
  "bytes_TrimSpace sample_env ill_typed_value = ill_typed_value"
  "bytes_TrimSpace sample_env '' 17'' = ''17''"
  by (simp_all add: sample_defs)

theorem LoadIndexWithMeta_dispatch_witness:
  "hd legacy_value = CHR 0x22 \<and> hd rich_value = CHR 0x7B
   \<and> (\<exists>index out. LoadIndexWithMeta sample_env (repo_disk mixed_content) = (Inr index, out)
         \<and> map_of index ''a.txt'' = Some \<lparr>Hash = ''h1'', ModTime = 0, Size = 0\<rparr>
         \<and> map_of index ''b.txt'' = Some \<lparr>Hash = ''h2'', ModTime = 7, Size = 3\<rparr>)"
proof -
  have h1: "indexFile (repo_disk mixed_content) = Inr mixed_content"
    by (simp add: repo_disk_def)
  have h2: "mixed_content \<noteq> []"
    by (simp add: mixed_content_def)
  have h4: "distinct (map fst [(''a.txt'', legacy_value), (''b.txt'', rich_value), (''c'', '' 17'')])"
    by simp
  have a: "(''a.txt'', legacy_value) \<in> set [(''a.txt'', legacy_value), (''b.txt'', rich_value), (''c'', '' 17'')]"
    and b: "(''b.txt'', rich_value) \<in> set [(''a.txt'', legacy_value), (''b.txt'', rich_value), (''c'', '' 17'')]"
    by simp_all
  have n: "legacy_value \<noteq> []" "rich_value \<noteq> []"
    by (simp_all add: sample_defs)
  have q: "hd legacy_value = CHR 0x22" "hd rich_value = CHR 0x7B"
    by (simp_all add: sample_defs)
  have d: "json_Unmarshal_string sample_env legacy_value = Inr ''h1''"
    "json_Unmarshal_IndexEntry sample_env rich_value = Inr \<lparr>Hash = ''h2'', ModTime = 7, Size = 3\<rparr>"
    by (simp_all add: sample_defs)
  show ?thesis
    using LoadIndexWithMeta_dispatch
            [OF h1 h2 sample_rawMap_mixed h4 a sample_trim(1) n(1) sample_load_mixed]
          LoadIndexWithMeta_dispatch
            [OF h1 h2 sample_rawMap_mixed h4 b sample_trim(2) n(2) sample_load_mixed]
    by (simp add: q d sample_load_mixed)
qed

text \<open>
  C4. Let the index file hold a document that is not empty.
  \<^item> If the document does not parse, the load fails with \<open>IndexFileCorruption\<close>.
  \<^item> If the raw map holds, for \<open>path\<close>, a value whose first byte after trimming is neither a
    quote nor an opening brace, then the load gives what it gives for the other entries alone
    (the same index, or the same error), and when it succeeds the warning for \<open>path\<close> has been
    printed.
  \<^item> If the raw map holds a value that starts with a quote and does not decode as a string, or
    starts with an opening brace and does not decode as an \<open>IndexEntry\<close>, then the whole load
    fails, with one of the two errors that \<open>LoadIndexWithMeta\<close> builds for an entry that does
    not decode.
\<close>

theorem LoadIndexWithMeta_skip_or_fail:
  assumes "indexFile d = Inr content" and "content \<noteq> []"
  shows "(json_Unmarshal_rawMap env content = Inl e
            \<longrightarrow> LoadIndexWithMeta env d = (Inl (IndexFileCorruption e), []))
       \<and> (json_Unmarshal_rawMap env content = Inr (xs @ (path, raw) # ys)
            \<and> bytes_TrimSpace env raw \<noteq> []
            \<and> hd (bytes_TrimSpace env raw) \<noteq> CHR 0x22 \<and> hd (bytes_TrimSpace env raw) \<noteq> CHR 0x7B
            \<longrightarrow> fst (LoadIndexWithMeta env d) = fst (load_entries env (xs @ ys) [] [])
               \<and> (\<forall>index out. LoadIndexWithMeta env d = (Inr index, out)
                     \<longrightarrow> unknown_format_warning path \<in> set out))
       \<and> (json_Unmarshal_rawMap env content = Inr rawMap \<and> (path', raw') \<in> set rawMap
            \<and> bytes_TrimSpace env raw' \<noteq> []
            \<and> (hd (bytes_TrimSpace env raw') = CHR 0x22
                  \<and> json_Unmarshal_string env (bytes_TrimSpace env raw') = Inl e'
                \<or> hd (bytes_TrimSpace env raw') = CHR 0x7B
                  \<and> json_Unmarshal_IndexEntry env (bytes_TrimSpace env raw') = Inl e')
            \<longrightarrow> (\<exists>p msg. fst (LoadIndexWithMeta env d) = Inl (DecodeLegacyEntryFailed p msg)
                        \<or> fst (LoadIndexWithMeta env d) = Inl (DecodeEntryFailed p msg)))"
proof (intro conjI impI)
  assume "json_Unmarshal_rawMap env content = Inl e"
  with assms show "LoadIndexWithMeta env d = (Inl (IndexFileCorruption e), [])"
    by (simp add: LoadIndexWithMeta_def)
next
  assume a: "json_Unmarshal_rawMap env content = Inr (xs @ (path, raw) # ys)
            \<and> bytes_TrimSpace env raw \<noteq> []
            \<and> hd (bytes_TrimSpace env raw) \<noteq> CHR 0x22 \<and> hd (bytes_TrimSpace env raw) \<noteq> CHR 0x7B"
  then have l: "LoadIndexWithMeta env d = load_entries env (xs @ (path, raw) # ys) [] []"
    using assms by (simp add: LoadIndexWithMeta_content)
  from a show "fst (LoadIndexWithMeta env d) = fst (load_entries env (xs @ ys) [] [])"
    unfolding l by (intro load_entries_skip) simp_all
  from a show "\<forall>index out. LoadIndexWithMeta env d = (Inr index, out)
                 \<longrightarrow> unknown_format_warning path \<in> set out"
    unfolding l by (auto intro: load_entries_skip_warns)
next
  assume a: "json_Unmarshal_rawMap env content = Inr rawMap \<and> (path', raw') \<in> set rawMap
            \<and> bytes_TrimSpace env raw' \<noteq> []
            \<and> (hd (bytes_TrimSpace env raw') = CHR 0x22
                  \<and> json_Unmarshal_string env (bytes_TrimSpace env raw') = Inl e'
                \<or> hd (bytes_TrimSpace env raw') = CHR 0x7B
                  \<and> json_Unmarshal_IndexEntry env (bytes_TrimSpace env raw') = Inl e')"
  then have l: "LoadIndexWithMeta env d = load_entries env rawMap [] []"
    using assms by (simp add: LoadIndexWithMeta_content)
  from a have "\<exists>p msg. fst (load_entries env rawMap [] []) = Inl (DecodeLegacyEntryFailed p msg)
                     \<or> fst (load_entries env rawMap [] []) = Inl (DecodeEntryFailed p msg)"
    by (intro load_entries_decode_failure[where path = path' and raw = raw' and e = e']) auto
  then show "\<exists>p msg. fst (LoadIndexWithMeta env d) = Inl (DecodeLegacyEntryFailed p msg)
                   \<or> fst (LoadIndexWithMeta env d) = Inl (DecodeEntryFailed p msg)"
    unfolding l .
qed

theorem LoadIndexWithMeta_skip_or_fail_witness:
  "LoadIndexWithMeta sample_env (repo_disk ''{not json'')
     = (Inl (IndexFileCorruption ''invalid character''), [])
   \<and> hd (bytes_TrimSpace sample_env '' 17'') = CHR ''1''
   \<and> fst (LoadIndexWithMeta sample_env (repo_disk mixed_content))
       = fst (load_entries sample_env [(''a.txt'', legacy_value), (''b.txt'', rich_value)] [] [])
   \<and> unknown_format_warning ''c'' \<in> set (snd (LoadIndexWithMeta sample_env (repo_disk mixed_content)))
   \<and> hd (bytes_TrimSpace sample_env ill_typed_value) = CHR 0x7B
   \<and> fst (LoadIndexWithMeta sample_env (repo_disk ill_typed_content))
       = Inl (DecodeEntryFailed ''bad''
                ''cannot unmarshal number into Go struct field IndexEntry.h of type string'')"
proof -
  have c1: "indexFile (repo_disk ''{not json'') = Inr ''{not json''" "''{not json'' \<noteq> []"
    and c2: "indexFile (repo_disk mixed_content) = Inr mixed_content" "mixed_content \<noteq> []"
    and c3: "indexFile (repo_disk ill_typed_content) = Inr ill_typed_content"
      "ill_typed_content \<noteq> []"
    by (simp_all add: repo_disk_def mixed_content_def ill_typed_content_def)
  have u1: "json_Unmarshal_rawMap sample_env ''{not json'' = Inl ''invalid character''"
    by (simp add: sample_defs)
  have u2: "json_Unmarshal_rawMap sample_env mixed_content
            = Inr ([(''a.txt'', legacy_value), (''b.txt'', rich_value)] @ (''c'', '' 17'') # [])"
    by (simp add: sample_rawMap_mixed)
  have u3: "json_Unmarshal_rawMap sample_env ill_typed_content
            = Inr [(''a.txt'', legacy_value), (''bad'', ill_typed_value)]"
    by (simp add: sample_defs)
  have t2: "bytes_TrimSpace sample_env '' 17'' \<noteq> []"
    "hd (bytes_TrimSpace sample_env '' 17'') \<noteq> CHR 0x22"
    "hd (bytes_TrimSpace sample_env '' 17'') \<noteq> CHR 0x7B"
    "hd (bytes_TrimSpace sample_env '' 17'') = CHR ''1''"
    by (simp_all add: sample_trim)
  have t3: "bytes_TrimSpace sample_env ill_typed_value \<noteq> []"
    "hd (bytes_TrimSpace sample_env ill_typed_value) = CHR 0x7B"
    "json_Unmarshal_IndexEntry sample_env (bytes_TrimSpace sample_env ill_typed_value)
       = Inl ''cannot unmarshal number into Go struct field IndexEntry.h of type string''"
    "(''bad'', ill_typed_value) \<in> set [(''a.txt'', legacy_value), (''bad'', ill_typed_value)]"
    by (simp_all add: sample_defs)
  have l3: "LoadIndexWithMeta sample_env (repo_disk ill_typed_content)
            = (Inl (DecodeEntryFailed ''bad''
                     ''cannot unmarshal number into Go struct field IndexEntry.h of type string''), [])"
    by (simp add: LoadIndexWithMeta_def repo_disk_def sample_defs)
  show ?thesis
    using LoadIndexWithMeta_skip_or_fail
            [OF c1, where env = sample_env and e = "''invalid character''"]
          LoadIndexWithMeta_skip_or_fail
            [OF c2, where env = sample_env
               and xs = "[(''a.txt'', legacy_value), (''b.txt'', rich_value)]"
               and path = "''c''" and raw = "'' 17''" and ys = "[]"]
          LoadIndexWithMeta_skip_or_fail
            [OF c3, where env = sample_env
               and rawMap = "[(''a.txt'', legacy_value), (''bad'', ill_typed_value)]"
               and path' = "''bad''" and raw' = ill_typed_value
               and e' = "''cannot unmarshal number into Go struct field IndexEntry.h of type string''"]
    by (simp add: u1 u2 u3 t2 t3 l3 sample_load_mixed)
qed

subsection \<open>The legacy adapter\<close>

lemma map_of_build_proxy:
  "map_of (build_proxy idx proxy) p
   = (case map_of (rev idx) p of None \<Rightarrow> map_of proxy p | Some entry \<Rightarrow> Some (Hash entry))"
  by (induction idx proxy rule: build_proxy.induct) (auto simp: update_conv' split: option.splits)

lemma set_collect_missing:
  "set (collect_missing idx proxy acc) = set acc \<union> {p \<in> fst ` set idx. map_of proxy p = None}"
  by (induction idx proxy acc rule: collect_missing.induct) (auto simp: rev_image_eqI)

lemma map_of_delete_paths:
  "map_of (delete_paths ps idx) p = (if p \<in> set ps then None else map_of idx p)"
  by (induction ps arbitrary: idx) (auto simp: delete_conv')

lemma apply_hashes_frame:
  "p \<notin> fst ` set proxy \<Longrightarrow> map_of (apply_hashes proxy idx) p = map_of idx p"
  by (induction proxy idx rule: apply_hashes.induct) (auto simp: update_conv' split: option.splits)

lemma map_of_apply_hashes:
  "distinct (map fst proxy) \<Longrightarrow> map_of proxy p = Some newHash \<Longrightarrow>
   map_of (apply_hashes proxy idx) p
   = (case map_of idx p of
        None \<Rightarrow> Some \<lparr>Hash = newHash, ModTime = 0, Size = 0\<rparr>
      | Some existing \<Rightarrow>
          if Hash existing \<noteq> newHash then Some \<lparr>Hash = newHash, ModTime = 0, Size = 0\<rparr>
          else Some existing)"
proof (induction proxy arbitrary: idx)
  case Nil
  then show ?case by simp
next
  case (Cons a proxy)
  obtain q h where a: "a = (q, h)" by (cases a)
  show ?case
  proof (cases "q = p")
    case True
    with Cons.prems a have h: "h = newHash" and notin: "p \<notin> fst ` set proxy" by auto
    show ?thesis unfolding a True h
      by (simp add: apply_hashes_frame[OF notin] update_conv' split: option.splits)
  next
    case False
    with Cons.prems a have "distinct (map fst proxy)" "map_of proxy p = Some newHash" by auto
    note IH = Cons.IH[OF this]
    show ?thesis unfolding a using False
      by (simp add: IH update_conv' split: option.splits)
  qed
qed

text \<open>The rich index that \<open>UpdateIndex_fn\<close> leaves, key by key.\<close>

lemma UpdateIndex_fn_result:
  assumes "fn (build_proxy realIndex []) fx = (None, proxy, fx')"
    and "distinct (map fst proxy)"
  shows "\<exists>result. UpdateIndex_fn fn realIndex fx = (None, result, fx')
          \<and> (\<forall>p. map_of result p
                = (case map_of proxy p of
                     None \<Rightarrow> None
                   | Some newHash \<Rightarrow>
                       (case map_of realIndex p of
                          None \<Rightarrow> Some \<lparr>Hash = newHash, ModTime = 0, Size = 0\<rparr>
                        | Some existing \<Rightarrow>
                            if Hash existing \<noteq> newHash
                            then Some \<lparr>Hash = newHash, ModTime = 0, Size = 0\<rparr>
                            else Some existing)))"
proof -
  let ?del = "delete_paths (collect_missing realIndex proxy []) realIndex"
  have r: "UpdateIndex_fn fn realIndex fx = (None, apply_hashes proxy ?del, fx')"
    using assms(1) by (simp add: UpdateIndex_fn_def)
  have d: "map_of ?del p = (if map_of proxy p = None then None else map_of realIndex p)" for p
    by (auto simp: map_of_delete_paths set_collect_missing map_of_eq_None_iff)
  have "map_of (apply_hashes proxy ?del) p
        = (case map_of proxy p of
             None \<Rightarrow> None
           | Some newHash \<Rightarrow>
               (case map_of realIndex p of
                  None \<Rightarrow> Some \<lparr>Hash = newHash, ModTime = 0, Size = 0\<rparr>
                | Some existing \<Rightarrow>
                    if Hash existing \<noteq> newHash
                    then Some \<lparr>Hash = newHash, ModTime = 0, Size = 0\<rparr>
                    else Some existing))" for p
  proof (cases "map_of proxy p")
    case None
    then have "p \<notin> fst ` set proxy" by (simp add: map_of_eq_None_iff)
    from apply_hashes_frame[OF this] None show ?thesis by (simp add: d)
  next
    case (Some newHash)
    from map_of_apply_hashes[OF assms(2) Some] Some show ?thesis by (simp add: d)
  qed
  with r show ?thesis by blast
qed

text \<open>
  C8. Let the legacy callback, run on the hash view of the rich index, succeed and leave the map
  \<open>proxy\<close> (a Go map: its keys are distinct). Then \<open>UpdateIndex_fn\<close>, the function that
  \<open>UpdateIndex\<close> runs inside the transaction, succeeds with a rich index \<open>result\<close> in which
  every key that the rich index had and \<open>proxy\<close> lacks is absent, and every key of \<open>proxy\<close>
  whose hash is new (no entry before) or changed (an entry with another hash before) holds the
  entry with that hash, \<open>ModTime = 0\<close> and \<open>Size = 0\<close>.
\<close>

theorem UpdateIndex_reconciles:
  assumes "fn (build_proxy realIndex []) fx = (None, proxy, fx')"
    and "distinct (map fst proxy)"
  shows "\<exists>result. UpdateIndex_fn fn realIndex fx = (None, result, fx')
          \<and> (\<forall>p. map_of realIndex p \<noteq> None \<and> map_of proxy p = None \<longrightarrow> map_of result p = None)
          \<and> (\<forall>p newHash. map_of proxy p = Some newHash
                 \<and> (map_of realIndex p = None
                      \<or> (\<exists>existing. map_of realIndex p = Some existing \<and> Hash existing \<noteq> newHash))
                 \<longrightarrow> map_of result p = Some \<lparr>Hash = newHash, ModTime = 0, Size = 0\<rparr>)"
proof -
  from UpdateIndex_fn_result[where fn = fn, OF assms] obtain result where
    r: "UpdateIndex_fn fn realIndex fx = (None, result, fx')"
    and m: "\<And>p. map_of result p
                = (case map_of proxy p of
                     None \<Rightarrow> None
                   | Some newHash \<Rightarrow>
                       (case map_of realIndex p of
                          None \<Rightarrow> Some \<lparr>Hash = newHash, ModTime = 0, Size = 0\<rparr>
                        | Some existing \<Rightarrow>
                            if Hash existing \<noteq> newHash
                            then Some \<lparr>Hash = newHash, ModTime = 0, Size = 0\<rparr>
                            else Some existing))"
    by blast
  have "map_of result p = None" if "map_of proxy p = None" for p
    using that by (simp add: m)
  moreover have "map_of result p = Some \<lparr>Hash = newHash, ModTime = 0, Size = 0\<rparr>"
    if "map_of proxy p = Some newHash"
      and "map_of realIndex p = None
           \<or> (\<exists>existing. map_of realIndex p = Some existing \<and> Hash existing \<noteq> newHash)"
    for p newHash
    using that by (auto simp: m)
  ultimately show ?thesis using r by blast
qed

text \<open>
  C10. Under the same conditions, every key that \<open>proxy\<close> still holds with the hash its entry
  already had keeps that entry, \<open>ModTime\<close> and \<open>Size\<close> included; and an entry of the result
  that is not the entry the key had before belongs to a key whose hash is new or changed, and
  has \<open>ModTime = 0\<close> and \<open>Size = 0\<close>.
\<close>

theorem UpdateIndex_keeps_metadata:
  assumes "fn (build_proxy realIndex []) fx = (None, proxy, fx')"
    and "distinct (map fst proxy)"
  shows "\<exists>result. UpdateIndex_fn fn realIndex fx = (None, result, fx')
          \<and> (\<forall>p existing. map_of realIndex p = Some existing \<and> map_of proxy p = Some (Hash existing)
                 \<longrightarrow> map_of result p = Some existing)
          \<and> (\<forall>p entry. map_of result p = Some entry \<and> map_of realIndex p \<noteq> Some entry
                 \<longrightarrow> map_of proxy p = Some (Hash entry) \<and> ModTime entry = 0 \<and> Size entry = 0
                     \<and> (\<forall>existing. map_of realIndex p = Some existing
                            \<longrightarrow> Hash existing \<noteq> Hash entry))"
proof -
  from UpdateIndex_fn_result[where fn = fn, OF assms] obtain result where
    r: "UpdateIndex_fn fn realIndex fx = (None, result, fx')"
    and m: "\<And>p. map_of result p
                = (case map_of proxy p of
                     None \<Rightarrow> None
                   | Some newHash \<Rightarrow>
                       (case map_of realIndex p of
                          None \<Rightarrow> Some \<lparr>Hash = newHash, ModTime = 0, Size = 0\<rparr>
                        | Some existing \<Rightarrow>
                            if Hash existing \<noteq> newHash
                            then Some \<lparr>Hash = newHash, ModTime = 0, Size = 0\<rparr>
                            else Some existing))"
    by blast
  have "map_of result p = Some existing"
    if "map_of realIndex p = Some existing" and "map_of proxy p = Some (Hash existing)"
    for p existing
    using that by (simp add: m)
  moreover have "map_of proxy p = Some (Hash entry) \<and> ModTime entry = 0 \<and> Size entry = 0
                 \<and> (\<forall>existing. map_of realIndex p = Some existing \<longrightarrow> Hash existing \<noteq> Hash entry)"
    if "map_of result p = Some entry" and "map_of realIndex p \<noteq> Some entry"
    for p entry
    using that by (auto simp: m split: option.splits if_splits)
  ultimately show ?thesis using r by blast
qed
lemma sample_legacy_mutation:
  "legacy_mutation (build_proxy three_entries []) no_effects
   = (None, [(''b.txt'', ''h2x''), (''c.txt'', ''h3''), (''new.txt'', ''h9'')], no_effects)"
  by (simp add: legacy_mutation_def three_entries_def)

theorem UpdateIndex_reconciles_witness:
  "distinct (map fst [(''b.txt'', ''h2x''), (''c.txt'', ''h3''), (''new.txt'', ''h9'')])
   \<and> map_of three_entries ''a.txt'' \<noteq> None
   \<and> (\<exists>existing. map_of three_entries ''b.txt'' = Some existing \<and> Hash existing \<noteq> ''h2x'')
   \<and> map_of three_entries ''new.txt'' = None
   \<and> (\<exists>result. UpdateIndex_fn legacy_mutation three_entries no_effects = (None, result, no_effects)
         \<and> map_of result ''a.txt'' = None
         \<and> map_of result ''b.txt'' = Some \<lparr>Hash = ''h2x'', ModTime = 0, Size = 0\<rparr>
         \<and> map_of result ''new.txt'' = Some \<lparr>Hash = ''h9'', ModTime = 0, Size = 0\<rparr>)"
proof -
  have h2: "distinct (map fst [(''b.txt'', ''h2x''), (''c.txt'', ''h3''), (''new.txt'', ''h9'')])"
    by simp
  have pre: "map_of three_entries ''a.txt'' \<noteq> None"
    "\<exists>existing. map_of three_entries ''b.txt'' = Some existing \<and> Hash existing \<noteq> ''h2x''"
    "map_of three_entries ''new.txt'' = None"
    by (simp_all add: three_entries_def)
  from UpdateIndex_reconciles [where fn = legacy_mutation, OF sample_legacy_mutation h2]
  obtain result where
    r: "UpdateIndex_fn legacy_mutation three_entries no_effects = (None, result, no_effects)"
    and del: "\<And>p. map_of three_entries p \<noteq> None
                \<and> map_of [(''b.txt'', ''h2x''), (''c.txt'', ''h3''), (''new.txt'', ''h9'')] p = None
                \<Longrightarrow> map_of result p = None"
    and upd: "\<And>p newHash.
                map_of [(''b.txt'', ''h2x''), (''c.txt'', ''h3''), (''new.txt'', ''h9'')] p = Some newHash
                \<and> (map_of three_entries p = None
                     \<or> (\<exists>existing. map_of three_entries p = Some existing \<and> Hash existing \<noteq> newHash))
                \<Longrightarrow> map_of result p = Some \<lparr>Hash = newHash, ModTime = 0, Size = 0\<rparr>"
    by blast
  have "map_of result ''a.txt'' = None"
    by (rule del) (simp add: three_entries_def)
  moreover have "map_of result ''b.txt'' = Some \<lparr>Hash = ''h2x'', ModTime = 0, Size = 0\<rparr>"
    by (rule upd) (simp add: three_entries_def)
  moreover have "map_of result ''new.txt'' = Some \<lparr>Hash = ''h9'', ModTime = 0, Size = 0\<rparr>"
    by (rule upd) (simp add: three_entries_def)
  ultimately show ?thesis using r h2 pre by blast
qed

theorem UpdateIndex_keeps_metadata_witness:
  "distinct (map fst [(''b.txt'', ''h2x''), (''c.txt'', ''h3''), (''new.txt'', ''h9'')])
   \<and> map_of three_entries ''c.txt'' = Some \<lparr>Hash = ''h3'', ModTime = 8, Size = 4\<rparr>
   \<and> (\<exists>result. UpdateIndex_fn legacy_mutation three_entries no_effects = (None, result, no_effects)
         \<and> map_of result ''c.txt'' = Some \<lparr>Hash = ''h3'', ModTime = 8, Size = 4\<rparr>
         \<and> map_of result ''b.txt'' = Some \<lparr>Hash = ''h2x'', ModTime = 0, Size = 0\<rparr>
         \<and> map_of three_entries ''b.txt'' \<noteq> Some \<lparr>Hash = ''h2x'', ModTime = 0, Size = 0\<rparr>)"
proof -
  have h2: "distinct (map fst [(''b.txt'', ''h2x''), (''c.txt'', ''h3''), (''new.txt'', ''h9'')])"
    by simp
  have pre: "map_of three_entries ''c.txt'' = Some \<lparr>Hash = ''h3'', ModTime = 8, Size = 4\<rparr>"
    "map_of three_entries ''b.txt'' \<noteq> Some \<lparr>Hash = ''h2x'', ModTime = 0, Size = 0\<rparr>"
    by (simp_all add: three_entries_def)
  from UpdateIndex_keeps_metadata [where fn = legacy_mutation, OF sample_legacy_mutation h2]
  obtain result where
    r: "UpdateIndex_fn legacy_mutation three_entries no_effects = (None, result, no_effects)"
    and keep: "\<And>p existing. map_of three_entries p = Some existing
                \<and> map_of [(''b.txt'', ''h2x''), (''c.txt'', ''h3''), (''new.txt'', ''h9'')] p
                    = Some (Hash existing)
                \<Longrightarrow> map_of result p = Some existing"
    by blast
  have "map_of result ''c.txt'' = Some \<lparr>Hash = ''h3'', ModTime = 8, Size = 4\<rparr>"
    by (rule keep) (simp add: three_entries_def)
  moreover have "map_of result ''b.txt'' = Some \<lparr>Hash = ''h2x'', ModTime = 0, Size = 0\<rparr>"
    using r by (simp add: UpdateIndex_fn_def legacy_mutation_def three_entries_def Let_def) auto
  ultimately show ?thesis using r h2 pre by blast
qed

subsection \<open>The fast path\<close>

text \<open>
  C2. Let \<open>Walk\<close> visit a file (not a directory, \<^verbatim>\<open>Lstat\<close> succeeded) whose path relative to
  the root is \<open>relPath\<close>, and let the index hold, for the cleaned \<open>relPath\<close>, an entry whose
  \<open>Size\<close> and \<open>ModTime\<close> equal those of the file. Then the callback of \<open>AddFile\<close> returns nil
  and leaves the index and the effects as they were: no call of \<^verbatim>\<open>HashAndStoreFile\<close> (which
  is what reads the content) is recorded, and every entry, this one included, is unchanged. The
  same holds for the callback of \<open>AddAll\<close>; there only the map \<^verbatim>\<open>seen\<close> may grow, by this
  very path.
\<close>

theorem fast_path_skips_hashing:
  assumes "filepath_Rel env root fullPath = Inr relPath"
    and "map_of index (filepath_Clean env relPath) = Some entry"
    and "Size entry = info_Size info" and "ModTime entry = info_ModTime_Unix info"
    and "\<not> IsDir info"
  shows "AddFile_walkFn env root patterns proxy fullPath (Some info) None (index, fx)
           = (None, (index, fx))
       \<and> (AddAll_walkFn env root patterns proxy fullPath (Some info) None (index, seen, fx)
             = (None, (index, seen, fx))
          \<or> AddAll_walkFn env root patterns proxy fullPath (Some info) None (index, seen, fx)
             = (None, (index, seen(filepath_Clean env relPath \<mapsto> True), fx)))"
  using assms
  by (simp add: AddFile_walkFn_def AddAll_walkFn_def metadata_unchanged_def Let_def)

lemma sample_Rel_a:
  "filepath_Rel sample_env ''/repo'' ''/repo/a.txt'' = Inr ''a.txt''"
  by (simp add: sample_env_def HasPrefix_def)

theorem fast_path_skips_hashing_witness:
  "filepath_Clean sample_env ''a.txt'' = ''a.txt''
   \<and> \<not> IsDir (file_info 5 100)
   \<and> AddFile_walkFn sample_env ''/repo'' [''build.log''] [] ''/repo/a.txt''
        (Some (file_info 5 100)) None ([(''a.txt'', staged_entry)], no_effects)
      = (None, ([(''a.txt'', staged_entry)], no_effects))
   \<and> AddAll_walkFn sample_env ''/repo'' [''build.log''] [] ''/repo/a.txt''
        (Some (file_info 5 100)) None ([(''a.txt'', staged_entry)], Map.empty, no_effects)
      = (None, ([(''a.txt'', staged_entry)], [''a.txt'' \<mapsto> True], no_effects))"
proof -
  have c: "filepath_Clean sample_env ''a.txt'' = ''a.txt''"
    by (simp add: sample_env_def)
  have h2: "map_of [(''a.txt'', staged_entry)] (filepath_Clean sample_env ''a.txt'') = Some staged_entry"
    by (simp add: c)
  have h3: "Size staged_entry = info_Size (file_info 5 100)"
    and h4: "ModTime staged_entry = info_ModTime_Unix (file_info 5 100)"
    and h5: "\<not> IsDir (file_info 5 100)"
    by (simp_all add: staged_entry_def file_info_def)
  have all: "AddAll_walkFn sample_env ''/repo'' [''build.log''] [] ''/repo/a.txt''
        (Some (file_info 5 100)) None ([(''a.txt'', staged_entry)], Map.empty, no_effects)
      \<noteq> (None, ([(''a.txt'', staged_entry)], Map.empty, no_effects))"
    by (simp add: AddAll_walkFn_def sample_Rel_a c metadata_unchanged_def Let_def in_RepoDir_def
          HasPrefix_def sample_env_def staged_entry_def file_info_def)
  show ?thesis
    using fast_path_skips_hashing [OF sample_Rel_a h2 h3 h4 h5, of "[''build.log'']" "[]" no_effects Map.empty]
      all h5
    by (simp add: c)
qed

subsection \<open>Walk\<close>

text \<open>Results with which a callback lets the walk go on, or end without an error.\<close>

lemma walk_names_invariant:
  assumes step: "\<And>path info err s. I s \<Longrightarrow> I (snd (walkFn path info err s))"
    and sub: "\<And>name t path s. (name, t) \<in> set names \<Longrightarrow> I s \<Longrightarrow> I (snd (walk env walkFn path t s))"
  shows "I s \<Longrightarrow> I (snd (walk_names env walkFn path names s))"
  using sub
proof (induction names arbitrary: s)
  case Nil
  then show ?case by simp
next
  case (Cons a names)
  obtain name t where a: "a = (name, t)" by (cases a)
  have IH: "I s' \<Longrightarrow> I (snd (walk_names env walkFn path names s'))" for s'
    by (rule Cons.IH) (auto intro: Cons.prems(2))
  show ?case
  proof (cases t)
    case (LstatFails e)
    have "I (snd (walkFn (filepath_Join env path name) None (Some e) s))"
      by (rule step) (rule Cons.prems(1))
    then show ?thesis unfolding a LstatFails
      by (auto simp: Let_def split: prod.splits intro: IH)
  next
    case (Node fileInfo rderr sub)
    have "I (snd (walk env walkFn (filepath_Join env path name) t s))"
      by (rule Cons.prems(2)[of name t]) (simp_all add: a Cons.prems(1))
    then show ?thesis unfolding a Node
      by (auto simp: Let_def split: prod.splits intro: IH)
  qed
qed

text \<open>A property of the state that every call of the callback keeps is kept by the walk.\<close>

lemma walk_invariant:
  assumes step: "\<And>path info err s. I s \<Longrightarrow> I (snd (walkFn path info err s))"
  shows "I s \<Longrightarrow> I (snd (walk env walkFn path t s))"
proof (induction t arbitrary: path s)
  case (LstatFails e)
  then show ?case by (simp add: step)
next
  case (Node info err names)
  have sub: "I s' \<Longrightarrow> I (snd (walk env walkFn path' t s'))"
    if "(name, t) \<in> set names" for name t path' s'
    using that by (intro Node.IH[of "(name, t)" t]) auto
  have names: "I s' \<Longrightarrow> I (snd (walk_names env walkFn path names s'))" for s'
    by (rule walk_names_invariant[where I = I, OF step sub])
  have first: "I (snd (walkFn path (Some info) e s))" for e
    by (rule step) (rule Node.prems)
  show ?case
    using first[of None] first[of err]
    by (auto split: prod.splits intro: names)
qed

lemma Walk_invariant:
  assumes "\<And>path info err s. I s \<Longrightarrow> I (snd (walkFn path info err s))"
  shows "I s \<Longrightarrow> I (snd (Walk env root walkFn s))"
  using walk_invariant[where I = I and walkFn = walkFn and env = env and s = s
      and path = root and t = "os_Lstat env root", OF assms]
  by (auto simp: Walk_def split: prod.splits)
lemma walk_names_keeps:
  assumes step: "\<And>path info err s. I s \<Longrightarrow> I (snd (walkFn path info err s))"
    and start: "I s"
  shows "I (snd (walk_names env walkFn path names s))"
proof (rule walk_names_invariant[where I = I])
  show "I s" by (rule start)
  show "I (snd (walkFn path' info err s'))" if "I s'" for path' info err s'
    using that by (rule step)
  show "I (snd (walk env walkFn path' t s'))" if "I s'" for path' t s'
  proof (rule walk_invariant[where I = I and walkFn = walkFn])
    show "I s'" by (rule that)
    show "I (snd (walkFn p info err a))" if "I a" for p info err a
      using that by (rule step)
  qed
qed

text \<open>The same, for a property that need only be kept at the nodes that the walk meets, when
  the callback returns an error or \<open>SkipDir\<close> at the directories in \<open>skips\<close>.\<close>

lemma walk_invariant_nodes:
  assumes none: "\<And>p e s. I s \<Longrightarrow> I (snd (walkFn p None e s))"
    and skip: "\<And>p i s. skips p \<Longrightarrow> IsDir i \<Longrightarrow> fst (walkFn p (Some i) None s) \<noteq> None"
  shows "(\<And>p i e s. (p, i) \<in> walked_nodes env skips path t \<Longrightarrow> I s
            \<Longrightarrow> I (snd (walkFn p (Some i) e s)))
         \<Longrightarrow> I s \<Longrightarrow> I (snd (walk env walkFn path t s))"
proof (induction t arbitrary: path s)
  case (LstatFails e)
  then show ?case by (simp add: none)
next
  case (Node info err names)
  note some = Node.prems(1)
  have first: "I (snd (walkFn path (Some info) e s))" for e
    by (rule some) (simp_all add: Node.prems(2))
  show ?case
  proof (cases "IsDir info \<and> err = None \<and> \<not> skips path")
    case False
    then consider "\<not> IsDir info" | "IsDir info" "err \<noteq> None" | "IsDir info" "err = None" "skips path"
      by auto
    then show ?thesis
    proof cases
      case 1
      then show ?thesis using first[of None] by simp
    next
      case 2
      then show ?thesis using first[of err] by (auto split: prod.splits)
    next
      case 3
      with skip[of path info s] first[of None] show ?thesis by (auto split: prod.splits)
    qed
  next
    case True
    have sub: "I s' \<Longrightarrow> I (snd (walk env walkFn (filepath_Join env path name) t s'))"
      if "(name, t) \<in> set names" for name t s'
    proof (rule Node.IH[of "(name, t)" t])
      show "(name, t) \<in> set names" by (rule that)
      show "t \<in> Basic_BNFs.snds (name, t)" by simp
      show "I (snd (walkFn p (Some i) e s''))"
        if "(p, i) \<in> walked_nodes env skips (filepath_Join env path name) t" and "I s''" for p i e s''
        using that \<open>(name, t) \<in> set names\<close> True by (intro some) auto
    qed
    have names: "I s' \<Longrightarrow> I (snd (walk_names env walkFn path ns s'))"
      if "set ns \<subseteq> set names" for ns s'
      using that
    proof (induction ns arbitrary: s')
      case Nil
      then show ?case by simp
    next
      case (Cons a ns)
      obtain name t where a: "a = (name, t)" by (cases a)
      from Cons.prems have mem: "(name, t) \<in> set names" and rest: "set ns \<subseteq> set names"
        by (auto simp: a)
      note IH = Cons.IH[OF _ rest]
      show ?case
      proof (cases t)
        case (LstatFails e)
        have "I (snd (walkFn (filepath_Join env path name) None (Some e) s'))"
          by (rule none) (rule Cons.prems(1))
        then show ?thesis unfolding a LstatFails
          by (auto simp: Let_def split: prod.splits intro: IH)
      next
        case (Node fileInfo rderr sub')
        have "I (snd (walk env walkFn (filepath_Join env path name) t s'))"
          by (rule sub[OF mem]) (rule Cons.prems(1))
        then show ?thesis unfolding a Node
          by (auto simp: Let_def split: prod.splits intro: IH)
      qed
    qed
    show ?thesis using first[of err] True
      by (auto split: prod.splits intro: names)
  qed
qed

lemma Walk_invariant_nodes:
  assumes "\<And>p e s. I s \<Longrightarrow> I (snd (walkFn p None e s))"
    and "\<And>p i s. skips p \<Longrightarrow> IsDir i \<Longrightarrow> fst (walkFn p (Some i) None s) \<noteq> None"
    and "\<And>p i e s. (p, i) \<in> walked_nodes env skips root (os_Lstat env root) \<Longrightarrow> I s
           \<Longrightarrow> I (snd (walkFn p (Some i) e s))"
  shows "I s \<Longrightarrow> I (snd (Walk env root walkFn s))"
  using walk_invariant_nodes[where I = I and walkFn = walkFn and env = env and s = s
      and path = root and t = "os_Lstat env root" and skips = skips, OF assms]
  by (auto simp: Walk_def split: prod.splits)

text \<open>One round of the loop over the names of a directory, with the call of \<open>walk\<close> left
  folded.\<close>

lemma walk_names_Cons:
  "walk_names env walkFn path ((name, t) # rest) s =
     (case walk env walkFn (filepath_Join env path name) t s of
        (err', s1) \<Rightarrow> if ends_loop t err' then (err', s1) else walk_names env walkFn path rest s1)"
  by (cases t) (simp_all add: Let_def ends_loop_def split: prod.splits)

lemma walk_Node:
  "walk env walkFn path (Node info err names) s =
     (if \<not> IsDir info then walkFn path (Some info) None s
      else (case walkFn path (Some info) err s of
              (err1, s1) \<Rightarrow>
                if err \<noteq> None \<or> err1 \<noteq> None then (err1, s1)
                else walk_names env walkFn path names s1))"
  by simp

subsection \<open>Whole-tree staging: reconciliation\<close>

lemma set_collect_unseen:
  "set (collect_unseen idx seen acc) = set acc \<union> {p \<in> fst ` set idx. \<not> seen_at seen p}"
  by (induction idx seen acc rule: collect_unseen.induct) (auto simp: rev_image_eqI)

lemma map_of_delete_unseen:
  "map_of (delete_paths (collect_unseen idx seen []) idx) p
   = (if seen_at seen p then map_of idx p else None)"
  by (auto simp: map_of_delete_paths set_collect_unseen map_of_eq_None_iff)

text \<open>What one call of the callback of \<open>AddAll\<close> does to \<^verbatim>\<open>seen\<close>.\<close>

lemma AddAll_walkFn_seen:
  assumes "AddAll_walkFn env rootDir pats proxy fullPath info err (index, seen, fx)
           = (r, index', seen', fx')"
  shows "seen' = seen
       \<or> (\<exists>i cleanPath. info = Some i \<and> accepted env rootDir pats proxy fullPath i cleanPath
             \<and> seen' = seen(cleanPath \<mapsto> True))"
  using assms
  by (auto simp: AddAll_walkFn_def accepted_def Let_def
           split: option.splits sum.splits if_splits)

lemma AddAll_walkFn_accepted:
  assumes "accepted env rootDir pats proxy fullPath info cleanPath"
  shows "\<exists>r index' fx'. AddAll_walkFn env rootDir pats proxy fullPath (Some info) None (index, seen, fx)
           = (r, index', seen(cleanPath \<mapsto> True), fx')"
  using assms
  by (auto simp: AddAll_walkFn_def accepted_def Let_def split: sum.splits)

text \<open>What the callback of \<open>AddAll\<close> returns.\<close>

lemma AddAll_walkFn_result:
  "fst (AddAll_walkFn env rootDir pats proxy path (Some i) None s)
   = (if IsDir i \<and> AddAll_skips env rootDir path then Some SkipDir else None)"
  by (cases s)
     (auto simp: AddAll_walkFn_def AddAll_skips_def Let_def split: sum.splits)

lemma AddAll_walkFn_result_err:
  "fst (AddAll_walkFn env rootDir pats proxy path info (Some e) s) = Some (External e)"
  by (simp add: AddAll_walkFn_def)

lemma AddAll_Walk_seen:
  assumes "Walk env rootDir (AddAll_walkFn env rootDir pats proxy) (index, Map.empty, fx)
           = (r, index', seen, fx')"
    and "seen_at seen p"
  shows "\<exists>fullPath info. (fullPath, info) \<in> walked_nodes env (AddAll_skips env rootDir) rootDir (os_Lstat env rootDir)
           \<and> accepted env rootDir pats proxy fullPath info p"
proof -
  let ?I = "\<lambda>s. \<forall>p. seen_at (fst (snd s)) p
             \<longrightarrow> (\<exists>fullPath info. (fullPath, info) \<in> walked_nodes env (AddAll_skips env rootDir) rootDir (os_Lstat env rootDir)
                    \<and> accepted env rootDir pats proxy fullPath info p)"
  have "?I (snd (Walk env rootDir (AddAll_walkFn env rootDir pats proxy) (index, Map.empty, fx)))"
  proof (rule Walk_invariant_nodes[where I = ?I and skips = "AddAll_skips env rootDir"])
    show "?I (index, Map.empty, fx)" by (simp add: seen_at_def)
  next
    fix p and dir :: FileInfo and s :: "index \<times> (string \<rightharpoonup> bool) \<times> effects"
    assume "AddAll_skips env rootDir p" and "IsDir dir"
    then show "fst (AddAll_walkFn env rootDir pats proxy p (Some dir) None s) \<noteq> None"
      by (simp add: AddAll_walkFn_result)
  next
    fix p e and s :: "index \<times> (string \<rightharpoonup> bool) \<times> effects"
    assume I: "?I s"
    obtain i sn f where s: "s = (i, sn, f)" by (cases s)
    obtain r' i' sn' f' where c: "AddAll_walkFn env rootDir pats proxy p None e (i, sn, f) = (r', i', sn', f')"
      by (metis prod_cases4)
    from AddAll_walkFn_seen[OF c] have "sn' = sn" by auto
    with I show "?I (snd (AddAll_walkFn env rootDir pats proxy p None e s))"
      by (simp add: s c)
  next
    fix p info e and s :: "index \<times> (string \<rightharpoonup> bool) \<times> effects"
    assume node: "(p, info) \<in> walked_nodes env (AddAll_skips env rootDir) rootDir (os_Lstat env rootDir)" and I: "?I s"
    obtain i sn f where s: "s = (i, sn, f)" by (cases s)
    obtain r' i' sn' f' where
      c: "AddAll_walkFn env rootDir pats proxy p (Some info) e (i, sn, f) = (r', i', sn', f')"
      by (metis prod_cases4)
    from AddAll_walkFn_seen[OF c] consider "sn' = sn"
      | cleanPath where "accepted env rootDir pats proxy p info cleanPath"
          and "sn' = sn(cleanPath \<mapsto> True)"
      by auto
    then have "\<exists>fullPath info. (fullPath, info) \<in> walked_nodes env (AddAll_skips env rootDir) rootDir (os_Lstat env rootDir)
                 \<and> accepted env rootDir pats proxy fullPath info q"
      if "seen_at sn' q" for q
    proof cases
      case 1
      with I that show ?thesis by (simp add: s)
    next
      case 2
      show ?thesis
      proof (cases "q = cleanPath")
        case True
        with 2(1) node show ?thesis by blast
      next
        case False
        with that 2(2) have "seen_at sn q" by (simp add: seen_at_def)
        with I show ?thesis by (simp add: s)
      qed
    qed
    then show "?I (snd (AddAll_walkFn env rootDir pats proxy p (Some info) e s))"
      by (simp add: s c)
  qed
  with assms show ?thesis by simp
qed

lemma AddAll_walkFn_seen_kept:
  "seen_at (fst (snd s)) q
   \<Longrightarrow> seen_at (fst (snd (snd (AddAll_walkFn env rootDir pats proxy fullPath info err s)))) q"
  by (cases s)
     (auto simp: AddAll_walkFn_def Let_def seen_at_def split: option.splits sum.splits if_splits)

lemma AddAll_Walk_seen_kept:
  assumes "seen_at (fst (snd s)) q"
  shows "seen_at (fst (snd (snd (Walk env rootDir (AddAll_walkFn env rootDir pats proxy) s)))) q"
proof (rule Walk_invariant[where I = "\<lambda>s. seen_at (fst (snd s)) q"])
  show "seen_at (fst (snd s)) q" by (rule assms)
next
  fix path info err and s' :: "index \<times> (string \<rightharpoonup> bool) \<times> effects"
  assume "seen_at (fst (snd s')) q"
  then show "seen_at (fst (snd (snd (AddAll_walkFn env rootDir pats proxy path info err s')))) q"
    by (rule AddAll_walkFn_seen_kept)
qed

text \<open>The walk of \<open>AddAll\<close> never returns \<open>SkipAll\<close>, and returns \<open>SkipDir\<close> only from a
  directory.\<close>

lemma AddAll_walk_sentinels:
  "fst (walk env (AddAll_walkFn env rootDir pats proxy) path t s) \<noteq> Some SkipAll
   \<and> (fst (walk env (AddAll_walkFn env rootDir pats proxy) path t s) = Some SkipDir
        \<longrightarrow> (\<exists>info err names. t = Node info err names \<and> IsDir info))"
proof (induction t arbitrary: path s)
  case (LstatFails e)
  show ?case by (simp add: AddAll_walkFn_result_err)
next
  case (Node info err names)
  let ?fn = "AddAll_walkFn env rootDir pats proxy"
  have names: "fst (walk_names env ?fn path ns a) \<noteq> Some SkipAll
             \<and> fst (walk_names env ?fn path ns a) \<noteq> Some SkipDir"
    if "set ns \<subseteq> set names" for ns a
    using that
  proof (induction ns arbitrary: a)
    case Nil
    then show ?case by simp
  next
    case (Cons x ns)
    obtain name t where x: "x = (name, t)" by (cases x)
    from Cons.prems have mem: "(name, t) \<in> set names" and rest: "set ns \<subseteq> set names"
      by (auto simp: x)
    obtain e1 a1 where r1: "walk env ?fn (filepath_Join env path name) t a = (e1, a1)"
      by (cases "walk env ?fn (filepath_Join env path name) t a")
    have child: "e1 \<noteq> Some SkipAll"
      "e1 = Some SkipDir \<longrightarrow> (\<exists>info err names. t = Node info err names \<and> IsDir info)"
      using Node.IH[of "(name, t)" t "filepath_Join env path name" a] mem by (simp_all add: r1)
    show ?case
    proof (cases "ends_loop t e1")
      case True
      with child have "e1 \<noteq> Some SkipAll \<and> e1 \<noteq> Some SkipDir"
        by (auto simp: ends_loop_def)
      with True show ?thesis
        unfolding x by (simp add: walk_names_Cons r1 del: walk_names.simps)
    next
      case False
      with Cons.IH[OF rest, of a1] show ?thesis
        unfolding x by (simp add: walk_names_Cons r1 del: walk_names.simps)
    qed
  qed
  show ?case
  proof (cases "IsDir info")
    case False
    then show ?thesis by (simp add: AddAll_walkFn_result)
  next
    case True
    obtain ea a1 where ra: "?fn path (Some info) err s = (ea, a1)"
      by (cases "?fn path (Some info) err s")
    have "ea \<noteq> Some SkipAll"
    proof (cases err)
      case None
      with AddAll_walkFn_result[of env rootDir pats proxy path info s] ra show ?thesis
        by (auto split: if_splits)
    next
      case (Some e)
      with AddAll_walkFn_result_err[of env rootDir pats proxy path "Some info" e s] ra show ?thesis
        by auto
    qed
    with True names[OF subset_refl, of a1] show ?thesis
      by (simp add: ra)
  qed
qed

text \<open>A walk of \<open>AddAll\<close> that ends without error has marked every accepted file it met.\<close>

lemma AddAll_walk_marks:
  assumes "no_error (fst (walk env (AddAll_walkFn env rootDir pats proxy) path t s))"
    and "(fp, i) \<in> walked_nodes env (AddAll_skips env rootDir) path t"
    and "accepted env rootDir pats proxy fp i c"
  shows "seen_at (fst (snd (snd (walk env (AddAll_walkFn env rootDir pats proxy) path t s)))) c"
  using assms(1,2)
proof (induction t arbitrary: path s)
  case (LstatFails e)
  then show ?case by simp
next
  case (Node info err names)
  let ?fn = "AddAll_walkFn env rootDir pats proxy"
  let ?I = "\<lambda>s :: index \<times> (string \<rightharpoonup> bool) \<times> effects. seen_at (fst (snd s)) c"
  have kept: "?I (snd (walk_names env ?fn path ns a))" if "?I a" for ns a
  proof (rule walk_names_keeps[where I = ?I])
    show "?I a" by (rule that)
    show "?I (snd (?fn p info' err' a'))" if "?I a'" for p info' err' a'
      using that by (rule AddAll_walkFn_seen_kept)
  qed
  show ?case
  proof (cases "(fp, i) = (path, info)")
    case True
    with assms(3) have acc: "accepted env rootDir pats proxy path info c" by simp
    then have nodir: "\<not> IsDir info" by (auto simp: accepted_def split: sum.splits)
    obtain a b f where s: "s = (a, b, f)" by (cases s)
    from AddAll_walkFn_accepted[OF acc, of a b f] nodir show ?thesis
      by (auto simp: s seen_at_def)
  next
    case False
    with Node.prems(2) obtain name t where dir: "IsDir info" "err = None"
      and skip: "\<not> AddAll_skips env rootDir path"
      and mem: "(name, t) \<in> set names"
      and below: "(fp, i) \<in> walked_nodes env (AddAll_skips env rootDir) (filepath_Join env path name) t"
      by (auto split: if_splits)
    obtain a1 where ra: "?fn path (Some info) None s = (None, a1)"
      using AddAll_walkFn_result[of env rootDir pats proxy path info s] skip
      by (cases "?fn path (Some info) None s") auto
    have w: "walk env ?fn path (Node info err names) s = walk_names env ?fn path names a1"
      using dir ra by simp
    have names: "?I (snd (walk_names env ?fn path ns a))"
      if "set ns \<subseteq> set names" and "(name, t) \<in> set ns"
        and "no_error (fst (walk_names env ?fn path ns a))" for ns a
      using that
    proof (induction ns arbitrary: a)
      case Nil
      then show ?case by simp
    next
      case (Cons x ns)
      obtain n u where x: "x = (n, u)" by (cases x)
      from Cons.prems(1) have nu: "(n, u) \<in> set names" and rest: "set ns \<subseteq> set names"
        by (auto simp: x)
      obtain e1 b1 where r1: "walk env ?fn (filepath_Join env path n) u a = (e1, b1)"
        by (cases "walk env ?fn (filepath_Join env path n) u a")
      from AddAll_walk_sentinels[of env rootDir pats proxy "filepath_Join env path n" u a]
      have sent: "e1 \<noteq> Some SkipAll"
        "e1 = Some SkipDir \<longrightarrow> (\<exists>info err names. u = Node info err names \<and> IsDir info)"
        by (simp_all add: r1)
      have go_on: "\<not> ends_loop u e1"
      proof
        assume e: "ends_loop u e1"
        with Cons.prems(3) have "no_error e1"
          unfolding x by (simp add: walk_names_Cons r1 del: walk_names.simps)
        with e sent show False
          by (auto simp: ends_loop_def no_error_def)
      qed
      then have ok: "no_error e1"
        by (auto simp: ends_loop_def no_error_def split: fstree.splits)
      from go_on have step: "walk_names env ?fn path ((n, u) # ns) a = walk_names env ?fn path ns b1"
        by (simp add: walk_names_Cons r1 del: walk_names.simps)
      show ?case
      proof (cases "(name, t) = (n, u)")
        case True
        have "?I (snd (walk env ?fn (filepath_Join env path name) t a))"
        proof (rule Node.IH[of "(name, t)" t])
          show "(name, t) \<in> set names" by (rule mem)
          show "t \<in> Basic_BNFs.snds (name, t)" by simp
          show "no_error (fst (walk env ?fn (filepath_Join env path name) t a))"
            using ok r1 True by simp
          show "(fp, i) \<in> walked_nodes env (AddAll_skips env rootDir) (filepath_Join env path name) t"
            by (rule below)
        qed
        with True r1 have "?I b1" by simp
        then show ?thesis unfolding x step by (rule kept)
      next
        case False
        with Cons.prems(2) have "(name, t) \<in> set ns" by (auto simp: x)
        from Cons.IH[OF rest this] Cons.prems(3) show ?thesis
          unfolding x step by simp
      qed
    qed
    from Node.prems(1) have "no_error (fst (walk_names env ?fn path names a1))"
      by (simp only: w)
    from names[OF subset_refl mem this] show ?thesis
      by (simp only: w)
  qed
qed

lemma AddAll_Walk_marks:
  assumes "Walk env rootDir (AddAll_walkFn env rootDir pats proxy) s = (None, index', seen, fx')"
    and "(fp, i) \<in> walked_nodes env (AddAll_skips env rootDir) rootDir (os_Lstat env rootDir)"
    and "accepted env rootDir pats proxy fp i c"
  shows "seen_at seen c"
proof -
  from assms(1) have ok: "no_error (fst (walk env (AddAll_walkFn env rootDir pats proxy) rootDir
                                       (os_Lstat env rootDir) s))"
    by (auto simp: Walk_def no_error_def split: prod.splits if_splits)
  from AddAll_walk_marks[OF ok assms(2,3)] assms(1) show ?thesis
    by (auto simp: Walk_def split: prod.splits if_splits)
qed

text \<open>
  C5. Let \<open>AddAll\<close>'s callback run with loaded ignore patterns and resolved root directory.
  \<^item> Accumulation: a call of the walk callback on a file that passes the safety and ignore
    tests (\<open>accepted\<close>) marks the file's canonical path in \<^verbatim>\<open>seen\<close>, whether the fast path
    or the slow path follows and whether hashing succeeds, and no call and no walk ever takes a
    mark away.
  \<^item> Reconciliation: when the walk ends without error, with the index \<open>index'\<close> and the map
    \<open>seen\<close>, \<open>AddAll_fn\<close> returns the index obtained by collecting the keys that are not
    marked and deleting them; it maps each marked path as \<open>index'\<close> does and has no other
    key.
  \<^item> The marked paths are exactly the canonical paths of the accepted files that the walk
    met. So a key of the loaded index for which the tree has no accepted file (the file is
    gone, or it now matches an ignore rule) is not a key of the result.
\<close>

theorem AddAll_reconciles:
  assumes "LoadIgnorePatterns env = Inr pats" and "filepath_Abs env ''.'' = Inr rootDir"
    and "Walk env rootDir (AddAll_walkFn env rootDir pats (build_proxy index [])) (index, Map.empty, fx)
         = (None, index', seen, fx')"
  shows "(accepted env rootDir pats proxy fullPath info cleanPath
            \<longrightarrow> (\<exists>r i f. AddAll_walkFn env rootDir pats proxy fullPath (Some info) None (idxa, seena, fxa)
                           = (r, i, seena(cleanPath \<mapsto> True), f)))
       \<and> (seen_at (fst (snd s)) q
            \<longrightarrow> seen_at (fst (snd (snd (AddAll_walkFn env rootDir pats proxy fullPath' info' err' s)))) q
              \<and> seen_at (fst (snd (snd (Walk env rootDir (AddAll_walkFn env rootDir pats proxy) s)))) q)
       \<and> AddAll_fn env index fx = (None, delete_paths (collect_unseen index' seen []) index', fx')
       \<and> (\<forall>p. map_of (delete_paths (collect_unseen index' seen []) index') p
                = (if seen_at seen p then map_of index' p else None))
       \<and> (\<forall>p. seen_at seen p
              = (\<exists>fullPath info.
                   (fullPath, info) \<in> walked_nodes env (AddAll_skips env rootDir) rootDir (os_Lstat env rootDir)
                   \<and> accepted env rootDir pats (build_proxy index []) fullPath info p))
       \<and> (\<forall>p. map_of index p \<noteq> None
              \<and> (\<forall>fullPath info.
                    (fullPath, info) \<in> walked_nodes env (AddAll_skips env rootDir) rootDir (os_Lstat env rootDir)
                    \<longrightarrow> \<not> accepted env rootDir pats (build_proxy index []) fullPath info p)
              \<longrightarrow> map_of (delete_paths (collect_unseen index' seen []) index') p = None)"
proof -
  have acc: "accepted env rootDir pats proxy fullPath info cleanPath
            \<longrightarrow> (\<exists>r i f. AddAll_walkFn env rootDir pats proxy fullPath (Some info) None (idxa, seena, fxa)
                           = (r, i, seena(cleanPath \<mapsto> True), f))"
    by (intro impI AddAll_walkFn_accepted)
  have kept: "seen_at (fst (snd s)) q
            \<longrightarrow> seen_at (fst (snd (snd (AddAll_walkFn env rootDir pats proxy fullPath' info' err' s)))) q
              \<and> seen_at (fst (snd (snd (Walk env rootDir (AddAll_walkFn env rootDir pats proxy) s)))) q"
    by (intro impI conjI AddAll_walkFn_seen_kept AddAll_Walk_seen_kept)
  have fn: "AddAll_fn env index fx = (None, delete_paths (collect_unseen index' seen []) index', fx')"
    using assms by (simp add: AddAll_fn_def)
  have seen: "seen_at seen p
              = (\<exists>fullPath info.
                   (fullPath, info) \<in> walked_nodes env (AddAll_skips env rootDir) rootDir (os_Lstat env rootDir)
                   \<and> accepted env rootDir pats (build_proxy index []) fullPath info p)" for p
    using AddAll_Walk_seen[OF assms(3)] AddAll_Walk_marks[OF assms(3)] by blast
  have gone: "map_of (delete_paths (collect_unseen index' seen []) index') p = None"
    if "\<forall>fullPath info.
          (fullPath, info) \<in> walked_nodes env (AddAll_skips env rootDir) rootDir (os_Lstat env rootDir)
          \<longrightarrow> \<not> accepted env rootDir pats (build_proxy index []) fullPath info p" for p
  proof -
    from that seen have "\<not> seen_at seen p" by blast
    then show ?thesis by (simp add: map_of_delete_unseen)
  qed
  show ?thesis
    using acc kept fn seen gone by (simp add: map_of_delete_unseen)
qed

lemmas walker_defs = Walk_def AddAll_walkFn_def AddFile_walkFn_def in_RepoDir_def HasPrefix_def
  Let_def metadata_unchanged_def new_entry_def record_hash_call_def accepted_def AddAll_skips_def

lemmas sample_tree_defs = pattern_env_def bare_env_def sample_env_def sample_tree_def bare_tree_def
  file_a_def dir_info_def file_info_def stale_index_def staged_entry_def no_effects_def

lemma sample_stale_walk:
  "Walk pattern_env ''/repo''
     (AddAll_walkFn pattern_env ''/repo'' [''build.log''] (build_proxy stale_index []))
     (stale_index, Map.empty, no_effects)
   = (None, stale_index, [''a.txt'' \<mapsto> True, ''bad.bin'' \<mapsto> True],
      \<lparr>stdout = [could_not_add_warning ''bad.bin'' ErrPermission], hashed = [''/repo/bad.bin'']\<rparr>)"
  by (simp add: walker_defs sample_tree_defs)

theorem AddAll_reconciles_witness:
  "LoadIgnorePatterns pattern_env = Inr [''build.log''] \<and> filepath_Abs pattern_env ''.'' = Inr ''/repo''
   \<and> accepted pattern_env ''/repo'' [''build.log''] [] ''/repo/bad.bin'' (file_info 9 200) ''bad.bin''
   \<and> (\<exists>r i f. AddAll_walkFn pattern_env ''/repo'' [''build.log''] [] ''/repo/bad.bin''
                  (Some (file_info 9 200)) None ([], Map.empty, no_effects)
                = (r, i, [''bad.bin'' \<mapsto> True], f))
   \<and> AddAll_fn pattern_env stale_index no_effects
       = (None, [(''a.txt'', staged_entry)],
          \<lparr>stdout = [could_not_add_warning ''bad.bin'' ErrPermission], hashed = [''/repo/bad.bin'']\<rparr>)
   \<and> map_of stale_index ''old.txt'' \<noteq> None \<and> map_of stale_index ''build.log'' \<noteq> None
   \<and> map_of (delete_paths
               (collect_unseen stale_index [''a.txt'' \<mapsto> True, ''bad.bin'' \<mapsto> True] [])
               stale_index) ''old.txt'' = None
   \<and> map_of (delete_paths
               (collect_unseen stale_index [''a.txt'' \<mapsto> True, ''bad.bin'' \<mapsto> True] [])
               stale_index) ''build.log'' = None"
proof -
  have h1: "LoadIgnorePatterns pattern_env = Inr [''build.log'']"
    and h2: "filepath_Abs pattern_env ''.'' = Inr ''/repo''"
    by (simp_all add: pattern_env_def sample_env_def)
  have a: "accepted pattern_env ''/repo'' [''build.log''] [] ''/repo/bad.bin'' (file_info 9 200) ''bad.bin''"
    by (simp add: walker_defs sample_tree_defs)
  have s: "seen_at (fst (snd (stale_index, [''a.txt'' \<mapsto> True], no_effects))) ''a.txt''"
    by (simp add: seen_at_def)
  have t: "map_of stale_index ''old.txt'' \<noteq> None" "map_of stale_index ''build.log'' \<noteq> None"
    by (simp_all add: stale_index_def)
  have gone: "\<not> accepted pattern_env ''/repo'' [''build.log''] (build_proxy stale_index []) fullPath info p"
    if "(fullPath, info) \<in> walked_nodes pattern_env (AddAll_skips pattern_env ''/repo'') ''/repo'' (os_Lstat pattern_env ''/repo'')"
      and "p = ''old.txt'' \<or> p = ''build.log''"
    for fullPath info p
    using that by (auto simp: walker_defs sample_tree_defs)
  have d: "delete_paths (collect_unseen stale_index [''a.txt'' \<mapsto> True, ''bad.bin'' \<mapsto> True] [])
             stale_index = [(''a.txt'', staged_entry)]"
    by (simp add: stale_index_def seen_at_def)
  note inst = AddAll_reconciles [OF h1 h2 sample_stale_walk,
      where proxy = "[]" and fullPath = "''/repo/bad.bin''" and info = "file_info 9 200"
        and cleanPath = "''bad.bin''" and idxa = "[]" and seena = Map.empty and fxa = no_effects
        and s = "(stale_index, [''a.txt'' \<mapsto> True], no_effects)" and q = "''a.txt''"]
  from inst a have acc: "\<exists>r i f. AddAll_walkFn pattern_env ''/repo'' [''build.log''] [] ''/repo/bad.bin''
                  (Some (file_info 9 200)) None ([], Map.empty, no_effects)
                = (r, i, [''bad.bin'' \<mapsto> True], f)"
    by blast
  from inst have fn: "AddAll_fn pattern_env stale_index no_effects
       = (None, delete_paths (collect_unseen stale_index [''a.txt'' \<mapsto> True, ''bad.bin'' \<mapsto> True] [])
                  stale_index,
          \<lparr>stdout = [could_not_add_warning ''bad.bin'' ErrPermission], hashed = [''/repo/bad.bin'']\<rparr>)"
    by blast
  from inst have del: "\<And>p. map_of stale_index p \<noteq> None
              \<and> (\<forall>fullPath info. (fullPath, info) \<in> walked_nodes pattern_env (AddAll_skips pattern_env ''/repo'') ''/repo'' (os_Lstat pattern_env ''/repo'')
                     \<longrightarrow> \<not> accepted pattern_env ''/repo'' [''build.log''] (build_proxy stale_index []) fullPath info p)
              \<Longrightarrow> map_of (delete_paths
                     (collect_unseen stale_index [''a.txt'' \<mapsto> True, ''bad.bin'' \<mapsto> True] [])
                     stale_index) p = None"
    by blast
  have "map_of (delete_paths
               (collect_unseen stale_index [''a.txt'' \<mapsto> True, ''bad.bin'' \<mapsto> True] [])
               stale_index) ''old.txt'' = None"
    by (rule del) (use t gone in blast)
  moreover have "map_of (delete_paths
               (collect_unseen stale_index [''a.txt'' \<mapsto> True, ''bad.bin'' \<mapsto> True] [])
               stale_index) ''build.log'' = None"
    by (rule del) (use t gone in blast)
  ultimately show ?thesis
    using h1 h2 a acc fn t by (simp add: d)
qed

subsection \<open>Walk: two walks side by side, and where an error comes from\<close>

text \<open>Two callbacks that, on related states, return the same result and related states, make
  the walks over one tree return the same result and related states.\<close>

lemma walk_related:
  assumes step: "\<And>path info err s1 s2. R s1 s2
            \<Longrightarrow> fst (f1 path info err s1) = fst (f2 path info err s2)
              \<and> R (snd (f1 path info err s1)) (snd (f2 path info err s2))"
    and join: "filepath_Join env1 = filepath_Join env2"
  shows "R s1 s2
         \<Longrightarrow> fst (walk env1 f1 path t s1) = fst (walk env2 f2 path t s2)
           \<and> R (snd (walk env1 f1 path t s1)) (snd (walk env2 f2 path t s2))"
proof (induction t arbitrary: path s1 s2)
  case (LstatFails e)
  then show ?case by (simp add: step)
next
  case (Node info err names)
  have names: "R a b
       \<Longrightarrow> fst (walk_names env1 f1 path ns a) = fst (walk_names env2 f2 path ns b)
         \<and> R (snd (walk_names env1 f1 path ns a)) (snd (walk_names env2 f2 path ns b))"
    if "set ns \<subseteq> set names" for ns a b
    using that
  proof (induction ns arbitrary: a b)
    case Nil
    then show ?case by simp
  next
    case (Cons x ns)
    obtain name t where x: "x = (name, t)" by (cases x)
    from Cons.prems have mem: "(name, t) \<in> set names" and rest: "set ns \<subseteq> set names"
      by (auto simp: x)
    obtain e1 a1 where r1: "walk env1 f1 (filepath_Join env2 path name) t a = (e1, a1)"
      by (cases "walk env1 f1 (filepath_Join env2 path name) t a")
    obtain e2 b1 where r2: "walk env2 f2 (filepath_Join env2 path name) t b = (e2, b1)"
      by (cases "walk env2 f2 (filepath_Join env2 path name) t b")
    have "fst (walk env1 f1 (filepath_Join env2 path name) t a)
            = fst (walk env2 f2 (filepath_Join env2 path name) t b)
          \<and> R (snd (walk env1 f1 (filepath_Join env2 path name) t a))
              (snd (walk env2 f2 (filepath_Join env2 path name) t b))"
      by (rule Node.IH[of "(name, t)" t]) (simp_all add: mem Cons.prems(1))
    then have e: "e1 = e2" and R1: "R a1 b1" by (simp_all add: r1 r2)
    from Cons.IH[OF R1 rest] show ?case
      unfolding x by (simp add: walk_names_Cons join r1 r2 e R1 del: walk_names.simps)
  qed
  obtain ea a1 where ra: "f1 path (Some info) err s1 = (ea, a1)"
    by (cases "f1 path (Some info) err s1")
  obtain eb b1 where rb: "f2 path (Some info) err s2 = (eb, b1)"
    by (cases "f2 path (Some info) err s2")
  from step[OF Node.prems, of path "Some info" err] have e: "ea = eb" and R1: "R a1 b1"
    by (simp_all add: ra rb)
  show ?case
  proof (cases "IsDir info")
    case False
    with step[OF Node.prems, of path "Some info" None] show ?thesis by (simp only: walk_Node) simp
  next
    case True
    with names[OF subset_refl R1] show ?thesis
      by (simp add: ra rb e R1)
  qed
qed

lemma Walk_related:
  assumes "\<And>path info err s1 s2. R s1 s2
            \<Longrightarrow> fst (f1 path info err s1) = fst (f2 path info err s2)
              \<and> R (snd (f1 path info err s1)) (snd (f2 path info err s2))"
    and "filepath_Join env1 = filepath_Join env2" and "os_Lstat env1 = os_Lstat env2"
    and "R s1 s2"
  shows "fst (Walk env1 root f1 s1) = fst (Walk env2 root f2 s2)
       \<and> R (snd (Walk env1 root f1 s1)) (snd (Walk env2 root f2 s2))"
proof -
  obtain e1 a1 where r1: "walk env1 f1 root (os_Lstat env2 root) s1 = (e1, a1)"
    by (cases "walk env1 f1 root (os_Lstat env2 root) s1")
  obtain e2 b1 where r2: "walk env2 f2 root (os_Lstat env2 root) s2 = (e2, b1)"
    by (cases "walk env2 f2 root (os_Lstat env2 root) s2")
  from walk_related[where R = R and ?f1.0 = f1 and ?f2.0 = f2 and ?env1.0 = env1 and ?env2.0 = env2
      and ?s1.0 = s1 and ?s2.0 = s2 and path = root and t = "os_Lstat env2 root", OF assms(1,2,4)]
  have "e1 = e2" "R a1 b1" by (simp_all add: r1 r2)
  then show ?thesis by (simp add: Walk_def assms(3) r1 r2)
qed

text \<open>The same, when the callbacks need only agree at the nodes that the walk meets.\<close>

lemma walk_related_nodes:
  assumes none: "\<And>p e s1 s2. R s1 s2
            \<Longrightarrow> fst (f1 p None e s1) = fst (f2 p None e s2)
              \<and> R (snd (f1 p None e s1)) (snd (f2 p None e s2))"
    and skip: "\<And>p i s. skips p \<Longrightarrow> IsDir i \<Longrightarrow> fst (f2 p (Some i) None s) \<noteq> None"
    and join: "filepath_Join env1 = filepath_Join env2"
  shows "(\<And>p i e s1 s2. (p, i) \<in> walked_nodes env2 skips path t \<Longrightarrow> R s1 s2
            \<Longrightarrow> fst (f1 p (Some i) e s1) = fst (f2 p (Some i) e s2)
              \<and> R (snd (f1 p (Some i) e s1)) (snd (f2 p (Some i) e s2)))
         \<Longrightarrow> R s1 s2
         \<Longrightarrow> fst (walk env1 f1 path t s1) = fst (walk env2 f2 path t s2)
           \<and> R (snd (walk env1 f1 path t s1)) (snd (walk env2 f2 path t s2))"
proof (induction t arbitrary: path s1 s2)
  case (LstatFails e)
  then show ?case by (simp add: none)
next
  case (Node info err names)
  note some = Node.prems(1)
  have first: "fst (f1 path (Some info) e s1) = fst (f2 path (Some info) e s2)
             \<and> R (snd (f1 path (Some info) e s1)) (snd (f2 path (Some info) e s2))" for e
    by (rule some) (simp_all add: Node.prems(2))
  obtain ea a1 where ra: "f1 path (Some info) err s1 = (ea, a1)"
    by (cases "f1 path (Some info) err s1")
  obtain eb b1 where rb: "f2 path (Some info) err s2 = (eb, b1)"
    by (cases "f2 path (Some info) err s2")
  from first[of err] have e: "ea = eb" and R1: "R a1 b1"
    by (simp_all add: ra rb)
  show ?case
  proof (cases "IsDir info \<and> err = None \<and> eb = None")
    case False
    then consider "\<not> IsDir info" | "IsDir info" "err \<noteq> None \<or> eb \<noteq> None"
      by auto
    then show ?thesis
    proof cases
      case 1
      with first[of None] show ?thesis by (simp only: walk_Node) simp
    next
      case 2
      then show ?thesis by (auto simp: ra rb e R1)
    qed
  next
    case True
    then have dir: "IsDir info" and err: "err = None" and eb: "eb = None" by simp_all
    have noskip: "\<not> skips path"
      using skip[of path info s2] dir rb err eb by auto
    have sub: "R a b
         \<Longrightarrow> fst (walk env1 f1 (filepath_Join env2 path name) t a)
               = fst (walk env2 f2 (filepath_Join env2 path name) t b)
             \<and> R (snd (walk env1 f1 (filepath_Join env2 path name) t a))
                 (snd (walk env2 f2 (filepath_Join env2 path name) t b))"
      if "(name, t) \<in> set names" for name t a b
    proof (rule Node.IH[of "(name, t)" t])
      show "(name, t) \<in> set names" by (rule that)
      show "t \<in> Basic_BNFs.snds (name, t)" by simp
      show "fst (f1 p (Some i) e' c1) = fst (f2 p (Some i) e' c2)
            \<and> R (snd (f1 p (Some i) e' c1)) (snd (f2 p (Some i) e' c2))"
        if "(p, i) \<in> walked_nodes env2 skips (filepath_Join env2 path name) t" and "R c1 c2"
        for p i e' c1 c2
        using that \<open>(name, t) \<in> set names\<close> dir err noskip by (intro some) auto
    qed
    have names: "R a b
         \<Longrightarrow> fst (walk_names env1 f1 path ns a) = fst (walk_names env2 f2 path ns b)
           \<and> R (snd (walk_names env1 f1 path ns a)) (snd (walk_names env2 f2 path ns b))"
      if "set ns \<subseteq> set names" for ns a b
      using that
    proof (induction ns arbitrary: a b)
      case Nil
      then show ?case by simp
    next
      case (Cons x ns)
      obtain name t where x: "x = (name, t)" by (cases x)
      from Cons.prems have mem: "(name, t) \<in> set names" and rest: "set ns \<subseteq> set names"
        by (auto simp: x)
      obtain e1 c1 where r1: "walk env1 f1 (filepath_Join env2 path name) t a = (e1, c1)"
        by (cases "walk env1 f1 (filepath_Join env2 path name) t a")
      obtain e2 c2 where r2: "walk env2 f2 (filepath_Join env2 path name) t b = (e2, c2)"
        by (cases "walk env2 f2 (filepath_Join env2 path name) t b")
      from sub[OF mem Cons.prems(1)] have e': "e1 = e2" and R': "R c1 c2"
        by (simp_all add: r1 r2)
      from Cons.IH[OF R' rest] show ?case
        unfolding x by (simp add: walk_names_Cons join r1 r2 e' R' del: walk_names.simps)
    qed
    from ra rb have ra': "f1 path (Some info) None s1 = (None, a1)"
      and rb': "f2 path (Some info) None s2 = (None, b1)"
      by (simp_all add: err e eb)
    from names[OF subset_refl R1] show ?thesis
      by (simp add: dir err ra' rb')
  qed
qed

lemma Walk_related_nodes:
  assumes "\<And>p e s1 s2. R s1 s2
            \<Longrightarrow> fst (f1 p None e s1) = fst (f2 p None e s2)
              \<and> R (snd (f1 p None e s1)) (snd (f2 p None e s2))"
    and "\<And>p i s. skips p \<Longrightarrow> IsDir i \<Longrightarrow> fst (f2 p (Some i) None s) \<noteq> None"
    and "filepath_Join env1 = filepath_Join env2"
    and "\<And>p i e s1 s2. (p, i) \<in> walked_nodes env2 skips root (os_Lstat env2 root) \<Longrightarrow> R s1 s2
            \<Longrightarrow> fst (f1 p (Some i) e s1) = fst (f2 p (Some i) e s2)
              \<and> R (snd (f1 p (Some i) e s1)) (snd (f2 p (Some i) e s2))"
    and "os_Lstat env1 = os_Lstat env2"
    and "R s1 s2"
  shows "fst (Walk env1 root f1 s1) = fst (Walk env2 root f2 s2)
       \<and> R (snd (Walk env1 root f1 s1)) (snd (Walk env2 root f2 s2))"
proof -
  obtain e1 a1 where r1: "walk env1 f1 root (os_Lstat env2 root) s1 = (e1, a1)"
    by (cases "walk env1 f1 root (os_Lstat env2 root) s1")
  obtain e2 b1 where r2: "walk env2 f2 root (os_Lstat env2 root) s2 = (e2, b1)"
    by (cases "walk env2 f2 root (os_Lstat env2 root) s2")
  from walk_related_nodes[where R = R and ?f1.0 = f1 and ?f2.0 = f2 and ?env1.0 = env1
      and ?env2.0 = env2 and ?s1.0 = s1 and ?s2.0 = s2 and path = root
      and t = "os_Lstat env2 root" and skips = skips, OF assms(1,2,3,4) assms(6)]
  have "e1 = e2" "R a1 b1" by (simp_all add: r1 r2)
  then show ?thesis by (simp add: Walk_def assms(5) r1 r2)
qed

text \<open>A result of the walk that is not nil is the result of a call of the callback, and the
  state is left as that call left it: nothing runs after it.\<close>

lemma walk_error_origin:
  "walk env walkFn path t s = (Some e, s')
   \<Longrightarrow> \<exists>p i er s0. walkFn p i er s0 = (Some e, s')"
proof (induction t arbitrary: path s)
  case (LstatFails x)
  then show ?case by auto
next
  case (Node info err names)
  have names: "\<exists>p i er s0. walkFn p i er s0 = (Some e, s')"
    if "set ns \<subseteq> set names" and "walk_names env walkFn path ns a = (Some e, s')" for ns a
    using that
  proof (induction ns arbitrary: a)
    case Nil
    then show ?case by simp
  next
    case (Cons x ns)
    obtain name t where x: "x = (name, t)" by (cases x)
    from Cons.prems have mem: "(name, t) \<in> set names" and rest: "set ns \<subseteq> set names"
      by (auto simp: x)
    obtain e1 a1 where r1: "walk env walkFn (filepath_Join env path name) t a = (e1, a1)"
      by (cases "walk env walkFn (filepath_Join env path name) t a")
    show ?case
    proof (cases "ends_loop t e1")
      case True
      with Cons.prems(2) have "walk env walkFn (filepath_Join env path name) t a = (Some e, s')"
        unfolding x by (simp add: walk_names_Cons r1 del: walk_names.simps)
      then show ?thesis
        by (rule Node.IH[of "(name, t)" t, rotated 2]) (simp_all add: mem)
    next
      case False
      with Cons.prems(2) have "walk_names env walkFn path ns a1 = (Some e, s')"
        unfolding x by (simp add: walk_names_Cons r1 del: walk_names.simps)
      then show ?thesis by (rule Cons.IH[OF rest])
    qed
  qed
  obtain ea a1 where ra: "walkFn path (Some info) err s = (ea, a1)"
    by (cases "walkFn path (Some info) err s")
  show ?case
  proof (cases "IsDir info")
    case False
    with Node.prems show ?thesis by (simp only: walk_Node) auto
  next
    case True
    show ?thesis
    proof (cases "err \<noteq> None \<or> ea \<noteq> None")
      case True
      with \<open>IsDir info\<close> Node.prems ra show ?thesis by (simp only: walk_Node) auto
    next
      case False
      with \<open>IsDir info\<close> Node.prems ra have "walk_names env walkFn path names a1 = (Some e, s')"
        by (simp only: walk_Node) auto
      then show ?thesis by (rule names[OF subset_refl])
    qed
  qed
qed

lemma Walk_error_origin:
  "Walk env root walkFn s = (Some e, s') \<Longrightarrow> \<exists>p i er s0. walkFn p i er s0 = (Some e, s')"
  by (auto simp: Walk_def split: prod.splits if_splits dest: walk_error_origin)

text \<open>A property of the state that is kept by the calls that do not return an error holds
  after a walk that does not return an error.\<close>

lemma walk_invariant_no_error:
  assumes step: "\<And>path info err s. I s \<Longrightarrow> no_error (fst (walkFn path info err s))
                   \<Longrightarrow> I (snd (walkFn path info err s))"
  shows "I s \<Longrightarrow> no_error (fst (walk env walkFn path t s)) \<Longrightarrow> I (snd (walk env walkFn path t s))"
proof (induction t arbitrary: path s)
  case (LstatFails e)
  then show ?case by (simp add: step)
next
  case (Node info err names)
  have names: "I a \<Longrightarrow> no_error (fst (walk_names env walkFn path ns a))
       \<Longrightarrow> I (snd (walk_names env walkFn path ns a))"
    if "set ns \<subseteq> set names" for ns a
    using that
  proof (induction ns arbitrary: a)
    case Nil
    then show ?case by simp
  next
    case (Cons x ns)
    obtain name t where x: "x = (name, t)" by (cases x)
    from Cons.prems have mem: "(name, t) \<in> set names" and rest: "set ns \<subseteq> set names"
      by (auto simp: x)
    obtain e1 a1 where r1: "walk env walkFn (filepath_Join env path name) t a = (e1, a1)"
      by (cases "walk env walkFn (filepath_Join env path name) t a")
    have sub: "no_error e1 \<Longrightarrow> I a1"
      using Node.IH[of "(name, t)" t a "filepath_Join env path name"] mem Cons.prems(1)
      by (simp add: r1)
    show ?case
    proof (cases "ends_loop t e1")
      case True
      with Cons.prems(2) sub show ?thesis
        unfolding x by (simp add: walk_names_Cons r1 del: walk_names.simps)
    next
      case False
      then have "no_error e1" by (auto simp: ends_loop_def no_error_def split: fstree.splits)
      with sub have "I a1" by simp
      from Cons.IH[OF this _ rest] Cons.prems(2) False show ?thesis
        unfolding x by (simp add: walk_names_Cons r1 del: walk_names.simps)
    qed
  qed
  obtain ea a1 where ra: "walkFn path (Some info) err s = (ea, a1)"
    by (cases "walkFn path (Some info) err s")
  show ?case
  proof (cases "IsDir info")
    case False
    with Node.prems step[OF Node.prems(1), of path "Some info" None] show ?thesis
      by (simp only: walk_Node) auto
  next
    case True
    show ?thesis
    proof (cases "err \<noteq> None \<or> ea \<noteq> None")
      case True
      with \<open>IsDir info\<close> Node.prems ra step[OF Node.prems(1), of path "Some info" err]
      show ?thesis by (simp only: walk_Node) auto
    next
      case False
      then have "no_error ea" by (simp add: no_error_def)
      with step[OF Node.prems(1), of path "Some info" err] ra have "I a1" by simp
      from names[OF subset_refl this] False \<open>IsDir info\<close> Node.prems(2) ra show ?thesis
        by (simp only: walk_Node) auto
    qed
  qed
qed

lemma Walk_invariant_no_error:
  assumes "\<And>path info err s. I s \<Longrightarrow> no_error (fst (walkFn path info err s))
                   \<Longrightarrow> I (snd (walkFn path info err s))"
    and "I s" and "fst (Walk env root walkFn s) = None"
  shows "I (snd (Walk env root walkFn s))"
proof -
  from assms(3) have "no_error (fst (walk env walkFn root (os_Lstat env root) s))"
    by (auto simp: Walk_def no_error_def split: prod.splits if_splits)
  from walk_invariant_no_error[where I = I and walkFn = walkFn, OF assms(1,2) this]
  show ?thesis by (auto simp: Walk_def split: prod.splits)
qed

subsection \<open>Errors in the two staging modes\<close>

lemma UpdateIndexWithMeta_reached:
  assumes "os_MkdirAll env indexDir = None" and "lock env indexPath = None"
    and "LoadIndexWithMeta env d = (Inr index, out)"
    and "fn index (fx\<lparr>stdout := stdout fx @ out\<rparr>) = (Some err, index', fx')"
  shows "UpdateIndexWithMeta env fn d fx = (Some err, d\<lparr>stat := (stat d)(indexDir := None)\<rparr>, fx')"
  using assms by (simp add: UpdateIndexWithMeta_def)

lemma AddFile_reached:
  assumes "\<not> os_IsNotExist (stat d (RepoDir env))"
    and "filepath_Abs env inputPath = Inr absInputPath" and "filepath_Abs env ''.'' = Inr absRepoRoot"
    and "\<not> os_IsNotExist (stat d absInputPath)"
  shows "AddFile env inputPath d fx
         = UpdateIndexWithMeta env (AddFile_fn env absInputPath absRepoRoot) d fx"
  using assms by (simp add: AddFile_def)

text \<open>In \<open>AddFile\<close>, a walk that ends without error has met no failing hash.\<close>

lemma AddFile_walk_hashes_succeed:
  assumes "Walk env root (AddFile_walkFn env repoRoot pats proxy) (index, fx) = (None, index', fx')"
    and "p \<in> set (hashed fx')"
  shows "p \<in> set (hashed fx) \<or> (\<exists>h. HashAndStoreFile env p = Inr h)"
proof -
  let ?I = "\<lambda>s. \<forall>p \<in> set (hashed (snd s)). p \<in> set (hashed fx) \<or> (\<exists>h. HashAndStoreFile env p = Inr h)"
  have "?I (snd (Walk env root (AddFile_walkFn env repoRoot pats proxy) (index, fx)))"
  proof (rule Walk_invariant_no_error[where I = ?I])
    show "?I (index, fx)" by simp
    show "fst (Walk env root (AddFile_walkFn env repoRoot pats proxy) (index, fx)) = None"
      by (simp add: assms(1))
  next
    fix path info err and s :: "index \<times> effects"
    assume "?I s" and "no_error (fst (AddFile_walkFn env repoRoot pats proxy path info err s))"
    then show "?I (snd (AddFile_walkFn env repoRoot pats proxy path info err s))"
      by (auto simp: AddFile_walkFn_def Let_def no_error_def record_hash_call_def
               split: option.splits sum.splits if_splits)
  qed
  with assms show ?thesis by simp
qed

text \<open>In \<open>AddAll\<close>, neither the result of the walk nor the map \<^verbatim>\<open>seen\<close> depends on what
  \<^verbatim>\<open>HashAndStoreFile\<close> returns, nor on the index.\<close>

lemma AddAll_walkFn_control:
  "fst (AddAll_walkFn env rootDir pats proxy path info err (i1, sn, f1))
     = fst (AddAll_walkFn (env\<lparr>HashAndStoreFile := h\<rparr>) rootDir pats proxy path info err (i2, sn, f2))
   \<and> fst (snd (snd (AddAll_walkFn env rootDir pats proxy path info err (i1, sn, f1))))
     = fst (snd (snd (AddAll_walkFn (env\<lparr>HashAndStoreFile := h\<rparr>) rootDir pats proxy path info err
                        (i2, sn, f2))))"
  by (simp add: AddAll_walkFn_def Let_def in_RepoDir_def split: option.splits sum.splits)

lemma AddAll_Walk_control:
  "fst (Walk env rootDir (AddAll_walkFn env rootDir pats proxy) (i1, sn, f1))
     = fst (Walk (env\<lparr>HashAndStoreFile := h\<rparr>) rootDir
              (AddAll_walkFn (env\<lparr>HashAndStoreFile := h\<rparr>) rootDir pats proxy) (i2, sn, f2))
   \<and> fst (snd (snd (Walk env rootDir (AddAll_walkFn env rootDir pats proxy) (i1, sn, f1))))
     = fst (snd (snd (Walk (env\<lparr>HashAndStoreFile := h\<rparr>) rootDir
                        (AddAll_walkFn (env\<lparr>HashAndStoreFile := h\<rparr>) rootDir pats proxy)
                        (i2, sn, f2))))"
proof -
  let ?R = "\<lambda>(s1 :: index \<times> (string \<rightharpoonup> bool) \<times> effects) (s2 :: index \<times> (string \<rightharpoonup> bool) \<times> effects).
              fst (snd s1) = fst (snd s2)"
  have "fst (Walk env rootDir (AddAll_walkFn env rootDir pats proxy) (i1, sn, f1))
          = fst (Walk (env\<lparr>HashAndStoreFile := h\<rparr>) rootDir
              (AddAll_walkFn (env\<lparr>HashAndStoreFile := h\<rparr>) rootDir pats proxy) (i2, sn, f2))
        \<and> ?R (snd (Walk env rootDir (AddAll_walkFn env rootDir pats proxy) (i1, sn, f1)))
             (snd (Walk (env\<lparr>HashAndStoreFile := h\<rparr>) rootDir
                (AddAll_walkFn (env\<lparr>HashAndStoreFile := h\<rparr>) rootDir pats proxy) (i2, sn, f2)))"
  proof (rule Walk_related[where R = ?R])
    fix path info err and s1 s2 :: "index \<times> (string \<rightharpoonup> bool) \<times> effects"
    assume R: "?R s1 s2"
    obtain a1 b1 c1 where s1: "s1 = (a1, b1, c1)" by (cases s1)
    obtain a2 b2 c2 where s2: "s2 = (a2, b2, c2)" by (cases s2)
    from R have b: "b2 = b1" by (simp add: s1 s2)
    from AddAll_walkFn_control[of env rootDir pats proxy path info err a1 b1 c1 h a2 c2]
    show "fst (AddAll_walkFn env rootDir pats proxy path info err s1)
            = fst (AddAll_walkFn (env\<lparr>HashAndStoreFile := h\<rparr>) rootDir pats proxy path info err s2)
          \<and> ?R (snd (AddAll_walkFn env rootDir pats proxy path info err s1))
               (snd (AddAll_walkFn (env\<lparr>HashAndStoreFile := h\<rparr>) rootDir pats proxy path info err s2))"
      by (simp add: s1 s2 b)
  qed simp_all
  then show ?thesis by simp
qed

text \<open>
  C6. Let the repository directory exist.

  Single path (\<open>AddFile\<close>):
  \<^item> if the input path cannot be made absolute, \<open>AddFile\<close> returns that failure and touches
    nothing;
  \<^item> its walk callback returns an error that \<open>Walk\<close> hands to it, returns
    \<open>OutsideRepository\<close> when the path cannot be made relative, and returns \<open>FailedToHash\<close>
    when \<^verbatim>\<open>HashAndStoreFile\<close> fails on an accepted file whose metadata changed, the index
    unchanged;
  \<^item> when the transaction reaches the walk and the walk returns an error, \<open>AddFile\<close> returns
    this error, the index file is as before, and the error and the final state are those of
    one call of the callback (nothing ran after it); when the walk returns nil, every path it
    handed to \<^verbatim>\<open>HashAndStoreFile\<close> was hashed successfully.

  Whole tree (\<open>AddAll\<close>):
  \<^item> on the same failing file its walk callback returns nil, so that the walk goes on, marks
    the path in \<^verbatim>\<open>seen\<close>, prints the warning and leaves the index, and with it the entry the
    path had, unchanged;
  \<^item> the result of the walk and the map \<^verbatim>\<open>seen\<close> are the same whatever
    \<^verbatim>\<open>HashAndStoreFile\<close> returns (\<open>h\<close> is any other behaviour of it).
\<close>

theorem staging_error_modes:
  assumes "\<not> os_IsNotExist (stat d (RepoDir env))"
  shows "(filepath_Abs env inputPath = Inl e
            \<longrightarrow> AddFile env inputPath d fx = (Some (ResolveAbsolutePathFailed e), d, fx))
       \<and> AddFile_walkFn env root pats proxy fullPath info (Some e') s = (Some (External e'), s)
       \<and> (filepath_Rel env root fullPath = Inl e
            \<longrightarrow> AddFile_walkFn env root pats proxy fullPath info None s
                = (Some (OutsideRepository fullPath), s))
       \<and> (accepted env root pats proxy fullPath i cleanPath \<and> \<not> metadata_unchanged index cleanPath i
            \<and> HashAndStoreFile env fullPath = Inl e
            \<longrightarrow> AddFile_walkFn env root pats proxy fullPath (Some i) None (index, fxa)
                  = (Some (FailedToHash fullPath e), (index, record_hash_call fullPath fxa))
              \<and> AddAll_walkFn env root pats proxy fullPath (Some i) None (index, seen, fxa)
                  = (None, (index, seen(cleanPath \<mapsto> True),
                       (record_hash_call fullPath fxa)
                         \<lparr>stdout := stdout fxa @ [could_not_add_warning cleanPath e]\<rparr>)))
       \<and> (filepath_Abs env inputPath = Inr absInputPath \<and> filepath_Abs env ''.'' = Inr absRepoRoot
            \<and> \<not> os_IsNotExist (stat d absInputPath)
            \<and> os_MkdirAll env indexDir = None \<and> lock env indexPath = None
            \<and> LoadIndexWithMeta env d = (Inr loaded, out) \<and> LoadIgnorePatterns env = Inr patterns
            \<and> Walk env absInputPath (AddFile_walkFn env absRepoRoot patterns (build_proxy loaded []))
                 (loaded, fx\<lparr>stdout := stdout fx @ out\<rparr>) = (r, index', fx')
            \<longrightarrow> (\<forall>err. r = Some err
                    \<longrightarrow> fst (AddFile env inputPath d fx) = Some err
                      \<and> indexFile (fst (snd (AddFile env inputPath d fx))) = indexFile d
                      \<and> (\<exists>p i er s0. AddFile_walkFn env absRepoRoot patterns (build_proxy loaded [])
                                         p i er s0 = (Some err, index', fx')))
              \<and> (r = None
                    \<longrightarrow> (\<forall>p \<in> set (hashed fx'). p \<in> set (hashed fx)
                                                 \<or> (\<exists>hash. HashAndStoreFile env p = Inr hash))))
       \<and> fst (Walk env rootDir (AddAll_walkFn env rootDir pats proxy) (index, seen, fxa))
           = fst (Walk (env\<lparr>HashAndStoreFile := h\<rparr>) rootDir
                    (AddAll_walkFn (env\<lparr>HashAndStoreFile := h\<rparr>) rootDir pats proxy)
                    (index, seen, fxa))
       \<and> fst (snd (snd (Walk env rootDir (AddAll_walkFn env rootDir pats proxy) (index, seen, fxa))))
           = fst (snd (snd (Walk (env\<lparr>HashAndStoreFile := h\<rparr>) rootDir
                              (AddAll_walkFn (env\<lparr>HashAndStoreFile := h\<rparr>) rootDir pats proxy)
                              (index, seen, fxa))))"
proof (intro conjI impI allI)
  assume "filepath_Abs env inputPath = Inl e"
  with assms show "AddFile env inputPath d fx = (Some (ResolveAbsolutePathFailed e), d, fx)"
    by (simp add: AddFile_def)
next
  show "AddFile_walkFn env root pats proxy fullPath info (Some e') s = (Some (External e'), s)"
    by (simp add: AddFile_walkFn_def)
next
  assume "filepath_Rel env root fullPath = Inl e"
  then show "AddFile_walkFn env root pats proxy fullPath info None s
             = (Some (OutsideRepository fullPath), s)"
    by (simp add: AddFile_walkFn_def)
next
  assume a: "accepted env root pats proxy fullPath i cleanPath
             \<and> \<not> metadata_unchanged index cleanPath i \<and> HashAndStoreFile env fullPath = Inl e"
  then show "AddFile_walkFn env root pats proxy fullPath (Some i) None (index, fxa)
             = (Some (FailedToHash fullPath e), (index, record_hash_call fullPath fxa))"
    by (auto simp: AddFile_walkFn_def accepted_def Let_def split: sum.splits)
  from a show "AddAll_walkFn env root pats proxy fullPath (Some i) None (index, seen, fxa)
               = (None, (index, seen(cleanPath \<mapsto> True),
                    (record_hash_call fullPath fxa)
                      \<lparr>stdout := stdout fxa @ [could_not_add_warning cleanPath e]\<rparr>))"
    by (auto simp: AddAll_walkFn_def accepted_def Let_def split: sum.splits)
next
  fix err
  assume a: "filepath_Abs env inputPath = Inr absInputPath \<and> filepath_Abs env ''.'' = Inr absRepoRoot
            \<and> \<not> os_IsNotExist (stat d absInputPath)
            \<and> os_MkdirAll env indexDir = None \<and> lock env indexPath = None
            \<and> LoadIndexWithMeta env d = (Inr loaded, out) \<and> LoadIgnorePatterns env = Inr patterns
            \<and> Walk env absInputPath (AddFile_walkFn env absRepoRoot patterns (build_proxy loaded []))
                 (loaded, fx\<lparr>stdout := stdout fx @ out\<rparr>) = (r, index', fx')"
    and r: "r = Some err"
  from a r have fn: "AddFile_fn env absInputPath absRepoRoot loaded (fx\<lparr>stdout := stdout fx @ out\<rparr>)
                     = (Some err, index', fx')"
    by (simp add: AddFile_fn_def)
  from a have "AddFile env inputPath d fx
               = UpdateIndexWithMeta env (AddFile_fn env absInputPath absRepoRoot) d fx"
    using assms by (intro AddFile_reached) simp_all
  also from a have "\<dots> = (Some err, d\<lparr>stat := (stat d)(indexDir := None)\<rparr>, fx')"
    by (intro UpdateIndexWithMeta_reached[where fn = "AddFile_fn env absInputPath absRepoRoot"
          and index = loaded and out = out and index' = index']) (simp_all add: fn)
  finally have res: "AddFile env inputPath d fx
                     = (Some err, d\<lparr>stat := (stat d)(indexDir := None)\<rparr>, fx')" .
  from res show "fst (AddFile env inputPath d fx) = Some err" by simp
  from res show "indexFile (fst (snd (AddFile env inputPath d fx))) = indexFile d" by simp
  from a r show "\<exists>p i er s0. AddFile_walkFn env absRepoRoot patterns (build_proxy loaded [])
                                p i er s0 = (Some err, index', fx')"
    by (intro Walk_error_origin[where env = env and root = absInputPath
          and s = "(loaded, fx\<lparr>stdout := stdout fx @ out\<rparr>)"]) simp
next
  assume a: "filepath_Abs env inputPath = Inr absInputPath \<and> filepath_Abs env ''.'' = Inr absRepoRoot
            \<and> \<not> os_IsNotExist (stat d absInputPath)
            \<and> os_MkdirAll env indexDir = None \<and> lock env indexPath = None
            \<and> LoadIndexWithMeta env d = (Inr loaded, out) \<and> LoadIgnorePatterns env = Inr patterns
            \<and> Walk env absInputPath (AddFile_walkFn env absRepoRoot patterns (build_proxy loaded []))
                 (loaded, fx\<lparr>stdout := stdout fx @ out\<rparr>) = (r, index', fx')"
    and r: "r = None"
  then have w: "Walk env absInputPath (AddFile_walkFn env absRepoRoot patterns (build_proxy loaded []))
                 (loaded, fx\<lparr>stdout := stdout fx @ out\<rparr>) = (None, index', fx')"
    by simp
  show "\<forall>p \<in> set (hashed fx'). p \<in> set (hashed fx) \<or> (\<exists>hash. HashAndStoreFile env p = Inr hash)"
    using AddFile_walk_hashes_succeed[OF w] by simp
next
  show "fst (Walk env rootDir (AddAll_walkFn env rootDir pats proxy) (index, seen, fxa))
           = fst (Walk (env\<lparr>HashAndStoreFile := h\<rparr>) rootDir
                    (AddAll_walkFn (env\<lparr>HashAndStoreFile := h\<rparr>) rootDir pats proxy)
                    (index, seen, fxa))"
    by (rule AddAll_Walk_control[THEN conjunct1])
  show "fst (snd (snd (Walk env rootDir (AddAll_walkFn env rootDir pats proxy) (index, seen, fxa))))
           = fst (snd (snd (Walk (env\<lparr>HashAndStoreFile := h\<rparr>) rootDir
                              (AddAll_walkFn (env\<lparr>HashAndStoreFile := h\<rparr>) rootDir pats proxy)
                              (index, seen, fxa))))"
    by (rule AddAll_Walk_control[THEN conjunct2])
qed
lemma sample_load_empty:
  "LoadIndexWithMeta sample_env (repo_disk ''{}'') = (Inr [], [])"
  by (simp add: LoadIndexWithMeta_def repo_disk_def sample_defs)

lemma sample_walk_bad:
  "Walk sample_env ''/repo/bad.bin'' (AddFile_walkFn sample_env ''/repo'' [''build.log''] (build_proxy [] []))
     ([], no_effects\<lparr>stdout := stdout no_effects @ []\<rparr>)
   = (Some (FailedToHash ''/repo/bad.bin'' ErrPermission), [],
      \<lparr>stdout = [], hashed = [''/repo/bad.bin'']\<rparr>)"
  by (simp add: walker_defs sample_tree_defs)

lemma sample_walk_a:
  "Walk sample_env ''/repo/a.txt'' (AddFile_walkFn sample_env ''/repo'' [''build.log''] (build_proxy [] []))
     ([], no_effects\<lparr>stdout := stdout no_effects @ []\<rparr>)
   = (None, [(''a.txt'', staged_entry)], \<lparr>stdout = [], hashed = [''/repo/a.txt'']\<rparr>)"
  by (simp add: walker_defs sample_tree_defs)

theorem staging_error_modes_witness:
  "\<not> os_IsNotExist (stat (repo_disk ''{}'') (RepoDir sample_env))
   \<and> AddFile unresolvable_env ''a.txt'' (repo_disk ''{}'') no_effects
       = (Some (ResolveAbsolutePathFailed ErrPermission), repo_disk ''{}'', no_effects)
   \<and> AddFile_walkFn sample_env ''/repo'' [''build.log''] [] ''/elsewhere/x'' None None ([], no_effects)
       = (Some (OutsideRepository ''/elsewhere/x''), ([], no_effects))
   \<and> accepted sample_env ''/repo'' [''build.log''] [] ''/repo/bad.bin'' (file_info 9 200) ''bad.bin''
   \<and> \<not> metadata_unchanged [] ''bad.bin'' (file_info 9 200)
   \<and> HashAndStoreFile sample_env ''/repo/bad.bin'' = Inl ErrPermission
   \<and> AddFile_walkFn sample_env ''/repo'' [''build.log''] [] ''/repo/bad.bin'' (Some (file_info 9 200)) None
        ([], no_effects)
       = (Some (FailedToHash ''/repo/bad.bin'' ErrPermission),
          ([], record_hash_call ''/repo/bad.bin'' no_effects))
   \<and> AddAll_walkFn sample_env ''/repo'' [''build.log''] [] ''/repo/bad.bin'' (Some (file_info 9 200)) None
        ([], Map.empty, no_effects)
       = (None, ([], [''bad.bin'' \<mapsto> True],
            (record_hash_call ''/repo/bad.bin'' no_effects)
              \<lparr>stdout := stdout no_effects @ [could_not_add_warning ''bad.bin'' ErrPermission]\<rparr>))
   \<and> fst (AddFile sample_env ''bad.bin'' (repo_disk ''{}'') no_effects)
       = Some (FailedToHash ''/repo/bad.bin'' ErrPermission)
   \<and> indexFile (fst (snd (AddFile sample_env ''bad.bin'' (repo_disk ''{}'') no_effects))) = Inr ''{}''
   \<and> fst (Walk sample_env ''/repo/a.txt''
             (AddFile_walkFn sample_env ''/repo'' [''build.log''] (build_proxy [] []))
             ([], no_effects\<lparr>stdout := stdout no_effects @ []\<rparr>)) = None
   \<and> (\<exists>hash. HashAndStoreFile sample_env ''/repo/a.txt'' = Inr hash)"
proof -
  have repo: "\<not> os_IsNotExist (stat (repo_disk ''{}'') (RepoDir sample_env))"
    "\<not> os_IsNotExist (stat (repo_disk ''{}'') (RepoDir unresolvable_env))"
    by (simp_all add: repo_disk_def os_IsNotExist_def)
  have absf: "filepath_Abs unresolvable_env ''a.txt'' = Inl ErrPermission"
    by (simp add: unresolvable_env_def)
  have rel: "filepath_Rel sample_env ''/repo'' ''/elsewhere/x''
             = Inl (ErrOther ''Rel: cannot make path relative'')"
    by (simp add: sample_env_def HasPrefix_def)
  have acc: "accepted sample_env ''/repo'' [''build.log''] [] ''/repo/bad.bin'' (file_info 9 200) ''bad.bin''"
    and meta: "\<not> metadata_unchanged [] ''bad.bin'' (file_info 9 200)"
    and hash: "HashAndStoreFile sample_env ''/repo/bad.bin'' = Inl ErrPermission"
    by (simp_all add: walker_defs sample_tree_defs)
  have reach: "filepath_Abs sample_env ''bad.bin'' = Inr ''/repo/bad.bin''"
    "filepath_Abs sample_env ''a.txt'' = Inr ''/repo/a.txt''"
    "filepath_Abs sample_env ''.'' = Inr ''/repo''"
    "\<not> os_IsNotExist (stat (repo_disk ''{}'') ''/repo/bad.bin'')"
    "\<not> os_IsNotExist (stat (repo_disk ''{}'') ''/repo/a.txt'')"
    "os_MkdirAll sample_env indexDir = None" "lock sample_env indexPath = None"
    "LoadIgnorePatterns sample_env = Inr [''build.log'']"
    by (simp_all add: sample_env_def repo_disk_def os_IsNotExist_def)
  have idxf: "indexFile (repo_disk ''{}'') = Inr ''{}''" "hashed no_effects = []"
    by (simp_all add: repo_disk_def no_effects_def)
  note i1 = staging_error_modes [OF repo(2), where inputPath = "''a.txt''" and e = ErrPermission
      and fx = no_effects]
  note i2 = staging_error_modes [OF repo(1), where root = "''/repo''" and fullPath = "''/elsewhere/x''"
      and e = "ErrOther ''Rel: cannot make path relative''" and pats = "[''build.log'']"
      and proxy = "[]" and info = None and s = "([], no_effects)"]
  note i3 = staging_error_modes [OF repo(1), where root = "''/repo''" and fullPath = "''/repo/bad.bin''"
      and i = "file_info 9 200" and cleanPath = "''bad.bin''" and e = ErrPermission
      and pats = "[''build.log'']" and proxy = "[]" and index = "[]" and fxa = no_effects
      and seen = Map.empty
      and inputPath = "''bad.bin''" and absInputPath = "''/repo/bad.bin''" and absRepoRoot = "''/repo''"
      and loaded = "[]" and out = "[]" and patterns = "[''build.log'']" and fx = no_effects
      and r = "Some (FailedToHash ''/repo/bad.bin'' ErrPermission)" and index' = "[]"
      and fx' = "\<lparr>stdout = [], hashed = [''/repo/bad.bin'']\<rparr>"]
  note i4 = staging_error_modes [OF repo(1), where
      inputPath = "''a.txt''" and absInputPath = "''/repo/a.txt''" and absRepoRoot = "''/repo''"
      and loaded = "[]" and out = "[]" and patterns = "[''build.log'']" and fx = no_effects
      and r = None and index' = "[(''a.txt'', staged_entry)]"
      and fx' = "\<lparr>stdout = [], hashed = [''/repo/a.txt'']\<rparr>"]
  have c1: "AddFile unresolvable_env ''a.txt'' (repo_disk ''{}'') no_effects
       = (Some (ResolveAbsolutePathFailed ErrPermission), repo_disk ''{}'', no_effects)"
    by (rule i1[THEN conjunct1, rule_format, OF absf])
  have c2: "AddFile_walkFn sample_env ''/repo'' [''build.log''] [] ''/elsewhere/x'' None None
        ([], no_effects) = (Some (OutsideRepository ''/elsewhere/x''), ([], no_effects))"
    by (rule i2[THEN conjunct2, THEN conjunct2, THEN conjunct1, rule_format, OF rel])
  have p3: "accepted sample_env ''/repo'' [''build.log''] [] ''/repo/bad.bin'' (file_info 9 200) ''bad.bin''
            \<and> \<not> metadata_unchanged [] ''bad.bin'' (file_info 9 200)
            \<and> HashAndStoreFile sample_env ''/repo/bad.bin'' = Inl ErrPermission"
    using acc meta hash by simp
  note c34 = i3[THEN conjunct2, THEN conjunct2, THEN conjunct2, THEN conjunct1, THEN mp, OF p3]
  have p5: "filepath_Abs sample_env ''bad.bin'' = Inr ''/repo/bad.bin''
            \<and> filepath_Abs sample_env ''.'' = Inr ''/repo''
            \<and> \<not> os_IsNotExist (stat (repo_disk ''{}'') ''/repo/bad.bin'')
            \<and> os_MkdirAll sample_env indexDir = None \<and> lock sample_env indexPath = None
            \<and> LoadIndexWithMeta sample_env (repo_disk ''{}'') = (Inr [], [])
            \<and> LoadIgnorePatterns sample_env = Inr [''build.log'']
            \<and> Walk sample_env ''/repo/bad.bin''
                 (AddFile_walkFn sample_env ''/repo'' [''build.log''] (build_proxy [] []))
                 ([], no_effects\<lparr>stdout := stdout no_effects @ []\<rparr>)
               = (Some (FailedToHash ''/repo/bad.bin'' ErrPermission), [],
                  \<lparr>stdout = [], hashed = [''/repo/bad.bin'']\<rparr>)"
    using reach sample_load_empty sample_walk_bad by simp
  note c5 = i3[THEN conjunct2, THEN conjunct2, THEN conjunct2, THEN conjunct2, THEN conjunct1,
      THEN mp, OF p5, THEN conjunct1, rule_format, OF refl]
  have p6: "filepath_Abs sample_env ''a.txt'' = Inr ''/repo/a.txt''
            \<and> filepath_Abs sample_env ''.'' = Inr ''/repo''
            \<and> \<not> os_IsNotExist (stat (repo_disk ''{}'') ''/repo/a.txt'')
            \<and> os_MkdirAll sample_env indexDir = None \<and> lock sample_env indexPath = None
            \<and> LoadIndexWithMeta sample_env (repo_disk ''{}'') = (Inr [], [])
            \<and> LoadIgnorePatterns sample_env = Inr [''build.log'']
            \<and> Walk sample_env ''/repo/a.txt''
                 (AddFile_walkFn sample_env ''/repo'' [''build.log''] (build_proxy [] []))
                 ([], no_effects\<lparr>stdout := stdout no_effects @ []\<rparr>)
               = (None, [(''a.txt'', staged_entry)], \<lparr>stdout = [], hashed = [''/repo/a.txt'']\<rparr>)"
    using reach sample_load_empty sample_walk_a by simp
  note c6 = i4[THEN conjunct2, THEN conjunct2, THEN conjunct2, THEN conjunct2, THEN conjunct1,
      THEN mp, OF p6, THEN conjunct2, THEN mp, OF refl]
  show ?thesis
    using repo(1) c1 c2 acc meta hash c34 c5 c6 sample_walk_a by (simp add: idxf)
qed

subsection \<open>The check for a repository\<close>

text \<open>\<open>AddFile\<close> refuses to run where the repository directory does not exist, and touches
  nothing.\<close>

lemma AddFile_requires_repository:
  "os_IsNotExist (stat d (RepoDir env))
   \<Longrightarrow> AddFile env inputPath d fx = (Some NotAKitcatRepository, d, fx)"
  by (simp add: AddFile_def)

text \<open>
  C7. \<open>AddAll\<close> has no such check. In a directory without \<^verbatim>\<open>.kitcat\<close> and without an index
  file, holding the one file \<^verbatim>\<open>a.txt\<close>, \<open>AddFile\<close> fails with \<open>NotAKitcatRepository\<close> and
  changes nothing, while \<open>AddAll\<close> returns nil: through \<open>UpdateIndexWithMeta\<close> it has
  created the directory, hashed \<^verbatim>\<open>a.txt\<close> and written an index file with its entry.
\<close>

theorem AddAll_runs_without_repository:
  "os_IsNotExist (stat bare_disk (RepoDir bare_env))
   \<and> AddFile bare_env ''a.txt'' bare_disk no_effects = (Some NotAKitcatRepository, bare_disk, no_effects)
   \<and> AddAll bare_env bare_disk no_effects
       = (None,
          bare_disk\<lparr>stat := (stat bare_disk)(indexDir := None), indexFile := Inr staged_content\<rparr>,
          \<lparr>stdout = [], hashed = [''/repo/a.txt'']\<rparr>)"
proof -
  have repo: "os_IsNotExist (stat bare_disk (RepoDir bare_env))"
    by (simp add: bare_disk_def os_IsNotExist_def)
  have load: "LoadIndexWithMeta bare_env bare_disk = (Inr [], [])"
    by (simp add: LoadIndexWithMeta_def bare_disk_def os_IsNotExist_def)
  have pats: "LoadIgnorePatterns bare_env = Inr [''build.log'']"
    "filepath_Abs bare_env ''.'' = Inr ''/repo''"
    by (simp_all add: bare_env_def sample_env_def)
  have walk: "Walk bare_env ''/repo'' (AddAll_walkFn bare_env ''/repo'' [''build.log''] [])
                ([], Map.empty, no_effects)
              = (None, [(''a.txt'', staged_entry)], [''a.txt'' \<mapsto> True],
                 \<lparr>stdout = [], hashed = [''/repo/a.txt'']\<rparr>)"
    by (simp add: walker_defs sample_tree_defs)
  have fn: "AddAll_fn bare_env [] no_effects
            = (None, [(''a.txt'', staged_entry)], \<lparr>stdout = [], hashed = [''/repo/a.txt'']\<rparr>)"
    by (simp add: AddAll_fn_def pats walk seen_at_def)
  have marshal: "json_MarshalIndent bare_env [''a.txt'' \<mapsto> staged_entry] = Inr staged_content"
    by (simp add: bare_env_def sample_env_def sample_MarshalIndent_def)
  have env: "os_MkdirAll bare_env indexDir = None" "lock bare_env indexPath = None"
    "SafeWriteFile bare_env indexPath staged_content = None"
    by (simp_all add: bare_env_def sample_env_def)
  have "AddAll bare_env bare_disk no_effects
       = (None,
          bare_disk\<lparr>stat := (stat bare_disk)(indexDir := None), indexFile := Inr staged_content\<rparr>,
          \<lparr>stdout = [], hashed = [''/repo/a.txt'']\<rparr>)"
    by (simp add: AddAll_def UpdateIndexWithMeta_def env load fn marshal)
  with repo show ?thesis
    by (simp add: AddFile_requires_repository)
qed

subsection \<open>Staging an unchanged tree twice\<close>

lemma metadata_unchanged_meta_of:
  "metadata_unchanged index cleanPath info
   = (meta_of (map_of index cleanPath) = Some (info_Size info, info_ModTime_Unix info))"
  by (auto simp: metadata_unchanged_def meta_of_def split: option.splits)

lemma meta_of_new_entry:
  "meta_of (Some (new_entry hash info)) = Some (info_Size info, info_ModTime_Unix info)"
  by (simp add: meta_of_def new_entry_def)

text \<open>One visit of a file: each run keeps its entry when the metadata are those of the file,
  and stores the same new entry otherwise.\<close>

lemma replay_store:
  assumes "replay x0 y0 x y" and "meta_of (Some e) = m"
  shows "replay x0 y0 (if meta_of x = m then x else Some e) (if meta_of y = m then y else Some e)"
  using assms unfolding replay_def by (cases "meta_of x = m"; cases "meta_of y = m") auto

lemma replay_start: "replay x0 y0 x0 y0"
  by (simp add: replay_def)

text \<open>When the second run starts from what the first one left, it ends there.\<close>

lemma replay_end: "replay x0 x x y \<Longrightarrow> y = x"
  by (auto simp: replay_def)

lemma AddAll_walkFn_replay:
  assumes ignore: "\<And>i rel. info = Some i \<Longrightarrow> \<not> IsDir i \<Longrightarrow> filepath_Rel env rootDir path = Inr rel
            \<Longrightarrow> ShouldIgnore env (filepath_Clean env rel) pats (map_of proxy2)
                = ShouldIgnore env (filepath_Clean env rel) pats (map_of proxy1)"
    and R: "replay_states start1 start2 s1 s2"
  shows "fst (AddAll_walkFn env rootDir pats proxy1 path info err s1)
           = fst (AddAll_walkFn env rootDir pats proxy2 path info err s2)
       \<and> replay_states start1 start2 (snd (AddAll_walkFn env rootDir pats proxy1 path info err s1))
            (snd (AddAll_walkFn env rootDir pats proxy2 path info err s2))"
proof -
  obtain i1 sn f1 where s1: "s1 = (i1, sn, f1)" by (cases s1)
  obtain i2 sn2 f2 where s2': "s2 = (i2, sn2, f2)" by (cases s2)
  from R have sn: "sn2 = sn" by (simp add: replay_states_def s1 s2')
  note s2 = s2'[unfolded sn]
  from R have rel: "replay (map_of start1 p) (map_of start2 p) (map_of i1 p) (map_of i2 p)" for p
    by (simp add: replay_states_def s1 s2)
  show ?thesis
  proof (cases "\<exists>i c. info = Some i \<and> err = None \<and> accepted env rootDir pats proxy1 path i c")
    case False
    then have "AddAll_walkFn env rootDir pats proxy1 path info err s1
               = (fst (AddAll_walkFn env rootDir pats proxy1 path info err s1), s1)"
      by (auto simp: AddAll_walkFn_def accepted_def Let_def s1 split: option.splits sum.splits)
    moreover from False have "AddAll_walkFn env rootDir pats proxy2 path info err s2
               = (fst (AddAll_walkFn env rootDir pats proxy1 path info err s1), s2)"
      by (auto simp: AddAll_walkFn_def accepted_def Let_def s1 s2 ignore
               split: option.splits sum.splits)
    ultimately show ?thesis using R by (metis fst_conv snd_conv)
  next
    case True
    then obtain i c where info: "info = Some i" and err: "err = None"
      and acc: "accepted env rootDir pats proxy1 path i c" by blast
    from acc have acc2: "accepted env rootDir pats proxy2 path i c"
      using ignore[OF info] by (auto simp: accepted_def split: sum.splits)
    let ?m = "Some (info_Size i, info_ModTime_Unix i)"
    show ?thesis
    proof (cases "HashAndStoreFile env path")
      case (Inl e)
      from acc Inl have r1: "AddAll_walkFn env rootDir pats proxy1 path info err s1
            = (None, i1, sn(c \<mapsto> True),
               if metadata_unchanged i1 c i then f1
               else (record_hash_call path f1)\<lparr>stdout := stdout f1 @ [could_not_add_warning c e]\<rparr>)"
        by (auto simp: AddAll_walkFn_def accepted_def Let_def s1 info err split: sum.splits)
      from acc2 Inl have r2: "AddAll_walkFn env rootDir pats proxy2 path info err s2
            = (None, i2, sn(c \<mapsto> True),
               if metadata_unchanged i2 c i then f2
               else (record_hash_call path f2)\<lparr>stdout := stdout f2 @ [could_not_add_warning c e]\<rparr>)"
        by (auto simp: AddAll_walkFn_def accepted_def Let_def s2 info err split: sum.splits)
      show ?thesis using rel by (simp add: r1 r2 replay_states_def)
    next
      case (Inr hash)
      let ?e = "new_entry hash i"
      let ?j1 = "if metadata_unchanged i1 c i then i1 else AList.update c ?e i1"
      let ?j2 = "if metadata_unchanged i2 c i then i2 else AList.update c ?e i2"
      from acc Inr have r1: "AddAll_walkFn env rootDir pats proxy1 path info err s1
            = (None, ?j1, sn(c \<mapsto> True),
               if metadata_unchanged i1 c i then f1 else record_hash_call path f1)"
        by (auto simp: AddAll_walkFn_def accepted_def Let_def s1 info err split: sum.splits)
      from acc2 Inr have r2: "AddAll_walkFn env rootDir pats proxy2 path info err s2
            = (None, ?j2, sn(c \<mapsto> True),
               if metadata_unchanged i2 c i then f2 else record_hash_call path f2)"
        by (auto simp: AddAll_walkFn_def accepted_def Let_def s2 info err split: sum.splits)
      have at_c: "map_of ?j1 c = (if meta_of (map_of i1 c) = ?m then map_of i1 c else Some ?e)"
        "map_of ?j2 c = (if meta_of (map_of i2 c) = ?m then map_of i2 c else Some ?e)"
        by (simp_all add: metadata_unchanged_meta_of update_conv')
      have other: "map_of ?j1 p = map_of i1 p" "map_of ?j2 p = map_of i2 p" if "p \<noteq> c" for p
        using that by (simp_all add: update_conv')
      have "replay (map_of start1 p) (map_of start2 p) (map_of ?j1 p) (map_of ?j2 p)" for p
      proof (cases "p = c")
        case True
        show ?thesis unfolding True at_c
          by (rule replay_store[OF rel meta_of_new_entry])
      next
        case False
        with rel show ?thesis by (simp only: other[OF False])
      qed
      then show ?thesis by (simp add: r1 r2 replay_states_def)
    qed
  qed
qed

lemma AddAll_Walk_replay:
  assumes ignore: "\<And>p i rel.
            (p, i) \<in> walked_nodes env (AddAll_skips env rootDir) rootDir (os_Lstat env rootDir)
            \<Longrightarrow> \<not> IsDir i \<Longrightarrow> filepath_Rel env rootDir p = Inr rel
            \<Longrightarrow> ShouldIgnore env (filepath_Clean env rel) pats (map_of proxy2)
                = ShouldIgnore env (filepath_Clean env rel) pats (map_of proxy1)"
    and first: "Walk env rootDir (AddAll_walkFn env rootDir pats proxy1) (start1, Map.empty, f1)
                = (r, i1, seen, f1')"
  shows "\<exists>i2 f2'. Walk env rootDir (AddAll_walkFn env rootDir pats proxy2) (start2, Map.empty, f2)
                     = (r, i2, seen, f2')
                   \<and> (\<forall>p. replay (map_of start1 p) (map_of start2 p) (map_of i1 p) (map_of i2 p))"
proof -
  obtain r2 i2 seen2 f2' where
    second: "Walk env rootDir (AddAll_walkFn env rootDir pats proxy2) (start2, Map.empty, f2)
             = (r2, i2, seen2, f2')"
    by (metis prod_cases4)
  have "fst (Walk env rootDir (AddAll_walkFn env rootDir pats proxy1) (start1, Map.empty, f1))
          = fst (Walk env rootDir (AddAll_walkFn env rootDir pats proxy2) (start2, Map.empty, f2))
        \<and> replay_states start1 start2
            (snd (Walk env rootDir (AddAll_walkFn env rootDir pats proxy1) (start1, Map.empty, f1)))
            (snd (Walk env rootDir (AddAll_walkFn env rootDir pats proxy2) (start2, Map.empty, f2)))"
  proof (rule Walk_related_nodes[where R = "replay_states start1 start2"
        and skips = "AddAll_skips env rootDir"])
    show "replay_states start1 start2 (start1, Map.empty, f1) (start2, Map.empty, f2)"
      by (simp add: replay_states_def replay_start)
  next
    fix p and dir :: FileInfo and s :: "index \<times> (string \<rightharpoonup> bool) \<times> effects"
    assume "AddAll_skips env rootDir p" and "IsDir dir"
    then show "fst (AddAll_walkFn env rootDir pats proxy2 p (Some dir) None s) \<noteq> None"
      by (simp add: AddAll_walkFn_result)
  next
    fix path err and s1 s2 :: "index \<times> (string \<rightharpoonup> bool) \<times> effects"
    assume "replay_states start1 start2 s1 s2"
    then show "fst (AddAll_walkFn env rootDir pats proxy1 path None err s1)
                 = fst (AddAll_walkFn env rootDir pats proxy2 path None err s2)
               \<and> replay_states start1 start2 (snd (AddAll_walkFn env rootDir pats proxy1 path None err s1))
                    (snd (AddAll_walkFn env rootDir pats proxy2 path None err s2))"
      by (intro AddAll_walkFn_replay) simp_all
  next
    fix path info err and s1 s2 :: "index \<times> (string \<rightharpoonup> bool) \<times> effects"
    assume node: "(path, info) \<in> walked_nodes env (AddAll_skips env rootDir) rootDir (os_Lstat env rootDir)"
      and R: "replay_states start1 start2 s1 s2"
    show "fst (AddAll_walkFn env rootDir pats proxy1 path (Some info) err s1)
                 = fst (AddAll_walkFn env rootDir pats proxy2 path (Some info) err s2)
               \<and> replay_states start1 start2 (snd (AddAll_walkFn env rootDir pats proxy1 path (Some info) err s1))
                    (snd (AddAll_walkFn env rootDir pats proxy2 path (Some info) err s2))"
    proof (rule AddAll_walkFn_replay[OF _ R])
      fix i rel
      assume "Some info = Some i" and "\<not> IsDir i" and "filepath_Rel env rootDir path = Inr rel"
      with node show "ShouldIgnore env (filepath_Clean env rel) pats (map_of proxy2)
                = ShouldIgnore env (filepath_Clean env rel) pats (map_of proxy1)"
        by (intro ignore[of path i rel]) simp_all
    qed
  qed simp_all
  then have "r2 = r" "seen2 = seen"
    and "\<forall>p. replay (map_of start1 p) (map_of start2 p) (map_of i1 p) (map_of i2 p)"
    by (simp_all add: first second replay_states_def)
  with second show ?thesis by blast
qed
lemma AddAll_fn_twice:
  assumes pats: "LoadIgnorePatterns env = Inr pats"
    and root: "filepath_Abs env ''.'' = Inr rootDir"
    and ignore: "\<And>p i rel.
            (p, i) \<in> walked_nodes env (AddAll_skips env rootDir) rootDir (os_Lstat env rootDir)
            \<Longrightarrow> \<not> IsDir i \<Longrightarrow> filepath_Rel env rootDir p = Inr rel
            \<Longrightarrow> ShouldIgnore env (filepath_Clean env rel) pats (map_of (build_proxy again []))
                = ShouldIgnore env (filepath_Clean env rel) pats (map_of (build_proxy idx []))"
    and staged: "AddAll_fn env idx f = (None, idx1, f1)"
    and same: "map_of again = map_of idx1"
  shows "\<exists>idx2 f2'. AddAll_fn env again f2 = (None, idx2, f2') \<and> map_of idx2 = map_of idx1"
proof -
  from staged pats root obtain iw seen where
    walk1: "Walk env rootDir (AddAll_walkFn env rootDir pats (build_proxy idx []))
                  (idx, Map.empty, f) = (None, iw, seen, f1)"
    and idx1: "idx1 = delete_paths (collect_unseen iw seen []) iw"
    by (auto simp: AddAll_fn_def split: sum.splits prod.splits option.splits)
  have "\<exists>i2 f2'. Walk env rootDir (AddAll_walkFn env rootDir pats (build_proxy again []))
              (again, Map.empty, f2) = (None, i2, seen, f2')
            \<and> (\<forall>p. replay (map_of idx p) (map_of again p) (map_of iw p) (map_of i2 p))"
    by (rule AddAll_Walk_replay[OF _ walk1]) (rule ignore; assumption)
  then obtain i2 f2' where
    walk2: "Walk env rootDir (AddAll_walkFn env rootDir pats (build_proxy again []))
              (again, Map.empty, f2) = (None, i2, seen, f2')"
    and rel: "\<And>p. replay (map_of idx p) (map_of again p) (map_of iw p) (map_of i2 p)"
    by blast
  have fn2: "AddAll_fn env again f2 = (None, delete_paths (collect_unseen i2 seen []) i2, f2')"
    by (simp add: AddAll_fn_def pats root walk2)
  have "map_of (delete_paths (collect_unseen i2 seen []) i2) p = map_of idx1 p" for p
  proof (cases "seen_at seen p")
    case False
    then show ?thesis by (simp add: idx1 map_of_delete_unseen)
  next
    case True
    then have "map_of again p = map_of iw p"
      by (simp add: same idx1 map_of_delete_unseen)
    with rel[of p] have "map_of i2 p = map_of iw p"
      by (auto dest: replay_end)
    with True show ?thesis by (simp add: idx1 map_of_delete_unseen)
  qed
  then have "map_of (delete_paths (collect_unseen i2 seen []) i2) = map_of idx1"
    by (rule ext)
  with fn2 show ?thesis by blast
qed

text \<open>The state after a call of the callback of \<open>AddAll\<close> on an entry with a \<open>FileInfo\<close>: the
  state before it, or, when the entry is an accepted file, the state after the fast path or
  after the slow path.\<close>

lemma AddAll_walkFn_step:
  "snd (AddAll_walkFn env rootDir pats proxy path (Some i) err (index, seen, fx)) = (index, seen, fx)
   \<or> (\<exists>c. accepted env rootDir pats proxy path i c
          \<and> snd (AddAll_walkFn env rootDir pats proxy path (Some i) err (index, seen, fx))
            = (if metadata_unchanged index c i then (index, seen(c \<mapsto> True), fx)
               else (case HashAndStoreFile env path of
                       Inl e \<Rightarrow> (index, seen(c \<mapsto> True),
                                 (record_hash_call path fx)
                                   \<lparr>stdout := stdout fx @ [could_not_add_warning c e]\<rparr>)
                     | Inr hash \<Rightarrow> (AList.update c (new_entry hash i) index, seen(c \<mapsto> True),
                                    record_hash_call path fx))))"
  by (auto simp: AddAll_walkFn_def accepted_def Let_def split: option.splits sum.splits)

lemma AddAll_walkFn_no_info:
  "snd (AddAll_walkFn env rootDir pats proxy path None err s) = s"
  by (auto simp: AddAll_walkFn_def Let_def split: option.splits sum.splits)

text \<open>When no two accepted files of the walk share a canonical path, a walk that ends without
  error leaves, for each accepted file, an entry with the metadata of the file, unless the
  file cannot be hashed.\<close>

lemma AddAll_Walk_stored:
  assumes unique: "\<And>p i p' i' c.
            (p, i) \<in> walked_nodes env (AddAll_skips env rootDir) rootDir (os_Lstat env rootDir)
            \<Longrightarrow> (p', i') \<in> walked_nodes env (AddAll_skips env rootDir) rootDir (os_Lstat env rootDir)
            \<Longrightarrow> accepted env rootDir pats proxy p i c \<Longrightarrow> accepted env rootDir pats proxy p' i' c
            \<Longrightarrow> p = p' \<and> i = i'"
    and walked: "Walk env rootDir (AddAll_walkFn env rootDir pats proxy) (index, Map.empty, fx)
                 = (None, index', seen, fx')"
    and node: "(p, i) \<in> walked_nodes env (AddAll_skips env rootDir) rootDir (os_Lstat env rootDir)"
    and acc: "accepted env rootDir pats proxy p i c"
  shows "meta_of (map_of index' c) = Some (info_Size i, info_ModTime_Unix i)
       \<or> (\<exists>e. HashAndStoreFile env p = Inl e)"
proof -
  let ?W = "walked_nodes env (AddAll_skips env rootDir) rootDir (os_Lstat env rootDir)"
  let ?I = "\<lambda>s :: index \<times> (string \<rightharpoonup> bool) \<times> effects.
              \<forall>p i c. (p, i) \<in> ?W \<longrightarrow> accepted env rootDir pats proxy p i c
                \<longrightarrow> seen_at (fst (snd s)) c
                \<longrightarrow> meta_of (map_of (fst s) c) = Some (info_Size i, info_ModTime_Unix i)
                    \<or> (\<exists>e. HashAndStoreFile env p = Inl e)"
  have "?I (snd (Walk env rootDir (AddAll_walkFn env rootDir pats proxy) (index, Map.empty, fx)))"
  proof (rule Walk_invariant_nodes[where I = ?I and skips = "AddAll_skips env rootDir"])
    show "?I (index, Map.empty, fx)" by (simp add: seen_at_def)
  next
    fix q and dir :: FileInfo and s :: "index \<times> (string \<rightharpoonup> bool) \<times> effects"
    assume "AddAll_skips env rootDir q" and "IsDir dir"
    then show "fst (AddAll_walkFn env rootDir pats proxy q (Some dir) None s) \<noteq> None"
      by (simp add: AddAll_walkFn_result)
  next
    fix q e and s :: "index \<times> (string \<rightharpoonup> bool) \<times> effects"
    assume "?I s"
    then show "?I (snd (AddAll_walkFn env rootDir pats proxy q None e s))"
      by (simp only: AddAll_walkFn_no_info)
  next
    fix q j e and s :: "index \<times> (string \<rightharpoonup> bool) \<times> effects"
    assume here: "(q, j) \<in> ?W" and I: "?I s"
    obtain a sn f where s: "s = (a, sn, f)" by (cases s)
    from AddAll_walkFn_step[of env rootDir pats proxy q j e a sn f]
    consider "snd (AddAll_walkFn env rootDir pats proxy q (Some j) e s) = s"
      | d where "accepted env rootDir pats proxy q j d"
          and "snd (AddAll_walkFn env rootDir pats proxy q (Some j) e s)
               = (if metadata_unchanged a d j then (a, sn(d \<mapsto> True), f)
                  else (case HashAndStoreFile env q of
                          Inl e \<Rightarrow> (a, sn(d \<mapsto> True),
                                    (record_hash_call q f)
                                      \<lparr>stdout := stdout f @ [could_not_add_warning d e]\<rparr>)
                        | Inr hash \<Rightarrow> (AList.update d (new_entry hash j) a, sn(d \<mapsto> True),
                                       record_hash_call q f)))"
      unfolding s by blast
    then show "?I (snd (AddAll_walkFn env rootDir pats proxy q (Some j) e s))"
    proof cases
      case 1
      with I show ?thesis by simp
    next
      case 2
      show ?thesis
      proof (intro allI impI)
        fix p i c
        assume node: "(p, i) \<in> ?W" and acc: "accepted env rootDir pats proxy p i c"
          and seen: "seen_at (fst (snd (snd (AddAll_walkFn env rootDir pats proxy q (Some j) e s)))) c"
        show "meta_of (map_of (fst (snd (AddAll_walkFn env rootDir pats proxy q (Some j) e s))) c)
                = Some (info_Size i, info_ModTime_Unix i)
              \<or> (\<exists>e. HashAndStoreFile env p = Inl e)"
        proof (cases "c = d")
          case True
          with unique[OF node here acc] 2(1) have same: "p = q" "i = j" by simp_all
          show ?thesis
            unfolding 2(2) same True
            by (cases "HashAndStoreFile env q")
               (simp_all add: metadata_unchanged_meta_of update_conv' meta_of_new_entry)
        next
          case False
          with seen have "seen_at sn c"
            unfolding 2(2) by (simp add: seen_at_def split: if_splits sum.splits)
          with I node acc have "meta_of (map_of a c) = Some (info_Size i, info_ModTime_Unix i)
              \<or> (\<exists>e. HashAndStoreFile env p = Inl e)"
            by (simp add: s)
          with False show ?thesis
            unfolding 2(2) by (simp add: update_conv' split: sum.splits)
        qed
      qed
    qed
  qed
  moreover from AddAll_Walk_marks[OF walked node acc] have "seen_at seen c" .
  ultimately show ?thesis
    using node acc by (simp add: walked)
qed

text \<open>A walk that starts from such an index takes the slow path only for files that cannot
  be hashed, and it leaves the index as it is.\<close>

lemma AddAll_Walk_fast:
  assumes stored: "\<And>p i c.
            (p, i) \<in> walked_nodes env (AddAll_skips env rootDir) rootDir (os_Lstat env rootDir)
            \<Longrightarrow> accepted env rootDir pats proxy p i c
            \<Longrightarrow> meta_of (map_of index c) = Some (info_Size i, info_ModTime_Unix i)
                \<or> (\<exists>e. HashAndStoreFile env p = Inl e)"
    and walked: "Walk env rootDir (AddAll_walkFn env rootDir pats proxy) (index, seen, fx)
                 = (r, index', seen', fx')"
  shows "index' = index
       \<and> (\<exists>extra. hashed fx' = hashed fx @ extra
             \<and> (\<forall>q \<in> set extra. \<exists>e. HashAndStoreFile env q = Inl e))"
proof -
  let ?W = "walked_nodes env (AddAll_skips env rootDir) rootDir (os_Lstat env rootDir)"
  let ?I = "\<lambda>s :: index \<times> (string \<rightharpoonup> bool) \<times> effects.
              fst s = index
              \<and> (\<exists>extra. hashed (snd (snd s)) = hashed fx @ extra
                    \<and> (\<forall>q \<in> set extra. \<exists>e. HashAndStoreFile env q = Inl e))"
  have "?I (snd (Walk env rootDir (AddAll_walkFn env rootDir pats proxy) (index, seen, fx)))"
  proof (rule Walk_invariant_nodes[where I = ?I and skips = "AddAll_skips env rootDir"])
    show "?I (index, seen, fx)" by simp
  next
    fix q and dir :: FileInfo and s :: "index \<times> (string \<rightharpoonup> bool) \<times> effects"
    assume "AddAll_skips env rootDir q" and "IsDir dir"
    then show "fst (AddAll_walkFn env rootDir pats proxy q (Some dir) None s) \<noteq> None"
      by (simp add: AddAll_walkFn_result)
  next
    fix q e and s :: "index \<times> (string \<rightharpoonup> bool) \<times> effects"
    assume "?I s"
    then show "?I (snd (AddAll_walkFn env rootDir pats proxy q None e s))"
      by (simp only: AddAll_walkFn_no_info)
  next
    fix q j e and s :: "index \<times> (string \<rightharpoonup> bool) \<times> effects"
    assume here: "(q, j) \<in> ?W" and I: "?I s"
    obtain a sn f where s: "s = (a, sn, f)" by (cases s)
    from I have a: "a = index" by (simp add: s)
    from I obtain extra where extra: "hashed f = hashed fx @ extra"
      and fails: "\<forall>q \<in> set extra. \<exists>e. HashAndStoreFile env q = Inl e"
      by (auto simp: s)
    from AddAll_walkFn_step[of env rootDir pats proxy q j e a sn f]
    consider "snd (AddAll_walkFn env rootDir pats proxy q (Some j) e s) = s"
      | d where "accepted env rootDir pats proxy q j d"
          and "snd (AddAll_walkFn env rootDir pats proxy q (Some j) e s)
               = (if metadata_unchanged a d j then (a, sn(d \<mapsto> True), f)
                  else (case HashAndStoreFile env q of
                          Inl e \<Rightarrow> (a, sn(d \<mapsto> True),
                                    (record_hash_call q f)
                                      \<lparr>stdout := stdout f @ [could_not_add_warning d e]\<rparr>)
                        | Inr hash \<Rightarrow> (AList.update d (new_entry hash j) a, sn(d \<mapsto> True),
                                       record_hash_call q f)))"
      unfolding s by blast
    then show "?I (snd (AddAll_walkFn env rootDir pats proxy q (Some j) e s))"
    proof cases
      case 1
      with I show ?thesis by simp
    next
      case 2
      show ?thesis
      proof (cases "metadata_unchanged a d j")
        case True
        with I show ?thesis unfolding 2(2) by (simp add: s)
      next
        case False
        with stored[OF here 2(1)] obtain e' where e': "HashAndStoreFile env q = Inl e'"
          by (auto simp: metadata_unchanged_meta_of a)
        have "hashed f @ [q] = hashed fx @ (extra @ [q])" by (simp add: extra)
        moreover have "\<forall>q \<in> set (extra @ [q]). \<exists>e. HashAndStoreFile env q = Inl e"
          using fails e' by simp
        ultimately show ?thesis
          unfolding 2(2) using False a by (simp add: e' record_hash_call_def)
      qed
    qed
  qed
  then show ?thesis by (simp add: walked)
qed

lemma accepted_cong:
  assumes "\<And>rel. \<not> IsDir i \<Longrightarrow> filepath_Rel env rootDir p = Inr rel
            \<Longrightarrow> ShouldIgnore env (filepath_Clean env rel) pats (map_of proxy2)
                = ShouldIgnore env (filepath_Clean env rel) pats (map_of proxy1)"
  shows "accepted env rootDir pats proxy2 p i c = accepted env rootDir pats proxy1 p i c"
  using assms by (auto simp: accepted_def split: sum.splits)

lemma AddAll_fn_twice_fast:
  assumes pats: "LoadIgnorePatterns env = Inr pats"
    and root: "filepath_Abs env ''.'' = Inr rootDir"
    and ignore: "\<And>p i rel.
            (p, i) \<in> walked_nodes env (AddAll_skips env rootDir) rootDir (os_Lstat env rootDir)
            \<Longrightarrow> \<not> IsDir i \<Longrightarrow> filepath_Rel env rootDir p = Inr rel
            \<Longrightarrow> ShouldIgnore env (filepath_Clean env rel) pats (map_of (build_proxy again []))
                = ShouldIgnore env (filepath_Clean env rel) pats (map_of (build_proxy idx []))"
    and unique: "\<And>p i p' i' c.
            (p, i) \<in> walked_nodes env (AddAll_skips env rootDir) rootDir (os_Lstat env rootDir)
            \<Longrightarrow> (p', i') \<in> walked_nodes env (AddAll_skips env rootDir) rootDir (os_Lstat env rootDir)
            \<Longrightarrow> accepted env rootDir pats (build_proxy idx []) p i c
            \<Longrightarrow> accepted env rootDir pats (build_proxy idx []) p' i' c
            \<Longrightarrow> p = p' \<and> i = i'"
    and staged: "AddAll_fn env idx f = (None, idx1, f1)"
    and same: "map_of again = map_of idx1"
    and again: "AddAll_fn env again f2 = (r, idx2, f2')"
  shows "\<exists>extra. hashed f2' = hashed f2 @ extra
           \<and> (\<forall>q \<in> set extra. \<exists>e. HashAndStoreFile env q = Inl e)"
proof -
  let ?W = "walked_nodes env (AddAll_skips env rootDir) rootDir (os_Lstat env rootDir)"
  from staged pats root obtain iw seen where
    walk1: "Walk env rootDir (AddAll_walkFn env rootDir pats (build_proxy idx []))
              (idx, Map.empty, f) = (None, iw, seen, f1)"
    and idx1: "idx1 = delete_paths (collect_unseen iw seen []) iw"
    by (auto simp: AddAll_fn_def split: sum.splits prod.splits option.splits)
  have stored: "meta_of (map_of again c) = Some (info_Size i, info_ModTime_Unix i)
                \<or> (\<exists>e. HashAndStoreFile env p = Inl e)"
    if node: "(p, i) \<in> ?W" and acc2: "accepted env rootDir pats (build_proxy again []) p i c"
    for p i c
  proof -
    have "accepted env rootDir pats (build_proxy again []) p i c
          = accepted env rootDir pats (build_proxy idx []) p i c"
      by (rule accepted_cong) (rule ignore[OF node])
    with acc2 have acc: "accepted env rootDir pats (build_proxy idx []) p i c" by simp
    from AddAll_Walk_marks[OF walk1 node acc] have "seen_at seen c" .
    then have "map_of again c = map_of iw c"
      by (simp add: same idx1 map_of_delete_unseen)
    moreover have "meta_of (map_of iw c) = Some (info_Size i, info_ModTime_Unix i)
                \<or> (\<exists>e. HashAndStoreFile env p = Inl e)"
      by (rule AddAll_Walk_stored[OF _ walk1 node acc]) (rule unique; assumption)
    ultimately show ?thesis by simp
  qed
  obtain r' i2 seen2 fw where
    walk2: "Walk env rootDir (AddAll_walkFn env rootDir pats (build_proxy again []))
              (again, Map.empty, f2) = (r', i2, seen2, fw)"
    by (metis prod_cases4)
  from again have "f2' = fw"
    by (auto simp: AddAll_fn_def pats root walk2 split: option.splits)
  moreover have "i2 = again
       \<and> (\<exists>extra. hashed fw = hashed f2 @ extra
             \<and> (\<forall>q \<in> set extra. \<exists>e. HashAndStoreFile env q = Inl e))"
    by (rule AddAll_Walk_fast[OF _ walk2]) (rule stored; assumption)
  ultimately show ?thesis by simp
qed

text \<open>
  C9. Let a first \<open>AddAll\<close> succeed: it loaded \<open>idx\<close>, staged it to \<open>idx1\<close> and wrote the
  serialisation of \<open>idx1\<close>, leaving the disk \<open>d1\<close>. Let nothing change: the second run uses
  the same environment (the same tree, the same results of hashing, the same patterns), and
  \<^item> loading what was written gives back the mapping that was serialised (the round trip of
    \<^verbatim>\<open>encoding/json\<close>), and
  \<^item> for the canonical path of each file that the walk from the working directory meets,
    the ignore predicate answers on the hash view of the reloaded index as it did on the
    hash view of \<open>idx\<close>.
  Then the second \<open>AddAll\<close> succeeds, the index it stages maps every path to the entry it had
  after the first run, and the disk after it is \<open>d1\<close>: the index file holds the same bytes.
  The serialiser sees the index as a lookup function, so the order in which the second run
  met the keys has no influence.
  Moreover, when no two accepted files of the walk share a canonical path, the second run
  takes the fast path at every file that has an entry: the files it hashes, \<open>extra\<close>, are
  files whose hashing fails, for which no entry is stored.
\<close>

theorem AddAll_twice_same_bytes:
  assumes first: "AddAll env d fx = (None, d1, fx1)"
    and loaded: "LoadIndexWithMeta env d = (Inr idx, out)"
    and staged: "AddAll_fn env idx (fx\<lparr>stdout := stdout fx @ out\<rparr>) = (None, idx1, fx1)"
    and reload: "LoadIndexWithMeta env d1 = (Inr again, out1)"
    and roundtrip: "map_of again = map_of idx1"
    and pats: "LoadIgnorePatterns env = Inr pats"
    and root: "filepath_Abs env ''.'' = Inr rootDir"
    and ignore: "\<forall>fullPath info relPath.
            (fullPath, info) \<in> walked_nodes env (AddAll_skips env rootDir) rootDir (os_Lstat env rootDir)
            \<longrightarrow> \<not> IsDir info \<longrightarrow> filepath_Rel env rootDir fullPath = Inr relPath
            \<longrightarrow> ShouldIgnore env (filepath_Clean env relPath) pats (map_of (build_proxy again []))
                = ShouldIgnore env (filepath_Clean env relPath) pats (map_of (build_proxy idx []))"
  shows "\<exists>idx2 fx2. AddAll env d1 fx1 = (None, d1, fx2)
           \<and> AddAll_fn env again (fx1\<lparr>stdout := stdout fx1 @ out1\<rparr>) = (None, idx2, fx2)
           \<and> map_of idx2 = map_of idx1
           \<and> ((\<forall>p i p' i' c.
                  (p, i) \<in> walked_nodes env (AddAll_skips env rootDir) rootDir (os_Lstat env rootDir)
                  \<longrightarrow> (p', i') \<in> walked_nodes env (AddAll_skips env rootDir) rootDir (os_Lstat env rootDir)
                  \<longrightarrow> accepted env rootDir pats (build_proxy idx []) p i c
                  \<longrightarrow> accepted env rootDir pats (build_proxy idx []) p' i' c
                  \<longrightarrow> p = p' \<and> i = i')
                \<longrightarrow> (\<exists>extra. hashed fx2 = hashed fx1 @ extra
                       \<and> (\<forall>q \<in> set extra. \<exists>e. HashAndStoreFile env q = Inl e)))"
proof -
  from first loaded staged obtain data where
    env: "os_MkdirAll env indexDir = None" "lock env indexPath = None"
    and marshal: "json_MarshalIndent env (map_of idx1) = Inr data"
    and wrote: "SafeWriteFile env indexPath data = None"
    and d1: "d1 = d\<lparr>stat := (stat d)(indexDir := None), indexFile := Inr data\<rparr>"
    by (auto simp: AddAll_def UpdateIndexWithMeta_def Let_def split: option.splits sum.splits)
  from ignore have ignore': "ShouldIgnore env (filepath_Clean env rel) pats (map_of (build_proxy again []))
                     = ShouldIgnore env (filepath_Clean env rel) pats (map_of (build_proxy idx []))"
    if "(p, i) \<in> walked_nodes env (AddAll_skips env rootDir) rootDir (os_Lstat env rootDir)"
      and "\<not> IsDir i" and "filepath_Rel env rootDir p = Inr rel" for p i rel
    using that by blast
  have "\<exists>idx2 fx2. AddAll_fn env again (fx1\<lparr>stdout := stdout fx1 @ out1\<rparr>) = (None, idx2, fx2)
           \<and> map_of idx2 = map_of idx1"
    by (rule AddAll_fn_twice[OF pats root _ staged roundtrip]) (rule ignore'; assumption)
  then obtain idx2 fx2 where
    fn2: "AddAll_fn env again (fx1\<lparr>stdout := stdout fx1 @ out1\<rparr>) = (None, idx2, fx2)"
    and same: "map_of idx2 = map_of idx1"
    by blast
  have d1': "d1\<lparr>stat := (stat d1)(indexDir := None)\<rparr> = d1" "d1\<lparr>indexFile := Inr data\<rparr> = d1"
    by (simp_all add: d1)
  have run2: "AddAll env d1 fx1 = (None, d1, fx2)"
    by (simp add: AddAll_def UpdateIndexWithMeta_def env reload fn2 same marshal wrote d1')
  have fast: "\<exists>extra. hashed fx2 = hashed fx1 @ extra
                \<and> (\<forall>q \<in> set extra. \<exists>e. HashAndStoreFile env q = Inl e)"
    if unique: "\<forall>p i p' i' c.
                  (p, i) \<in> walked_nodes env (AddAll_skips env rootDir) rootDir (os_Lstat env rootDir)
                  \<longrightarrow> (p', i') \<in> walked_nodes env (AddAll_skips env rootDir) rootDir (os_Lstat env rootDir)
                  \<longrightarrow> accepted env rootDir pats (build_proxy idx []) p i c
                  \<longrightarrow> accepted env rootDir pats (build_proxy idx []) p' i' c
                  \<longrightarrow> p = p' \<and> i = i'"
  proof -
    have "\<exists>extra. hashed fx2 = hashed (fx1\<lparr>stdout := stdout fx1 @ out1\<rparr>) @ extra
                \<and> (\<forall>q \<in> set extra. \<exists>e. HashAndStoreFile env q = Inl e)"
    proof (rule AddAll_fn_twice_fast[OF pats root _ _ staged roundtrip fn2])
      show "ShouldIgnore env (filepath_Clean env rel) pats (map_of (build_proxy again []))
            = ShouldIgnore env (filepath_Clean env rel) pats (map_of (build_proxy idx []))"
        if "(p, i) \<in> walked_nodes env (AddAll_skips env rootDir) rootDir (os_Lstat env rootDir)"
          and "\<not> IsDir i" and "filepath_Rel env rootDir p = Inr rel" for p i rel
        using that by (rule ignore')
      show "p = p' \<and> i = i'"
        if "(p, i) \<in> walked_nodes env (AddAll_skips env rootDir) rootDir (os_Lstat env rootDir)"
          and "(p', i') \<in> walked_nodes env (AddAll_skips env rootDir) rootDir (os_Lstat env rootDir)"
          and "accepted env rootDir pats (build_proxy idx []) p i c"
          and "accepted env rootDir pats (build_proxy idx []) p' i' c" for p i p' i' c
        using unique that by blast
    qed
    then show ?thesis by simp
  qed
  from run2 fn2 same fast show ?thesis by blast
qed
lemma sample_walk_all:
  "Walk sample_env ''/repo'' (AddAll_walkFn sample_env ''/repo'' [''build.log''] []) ([], Map.empty, no_effects)
   = (None, [(''a.txt'', staged_entry)], [''a.txt'' \<mapsto> True, ''bad.bin'' \<mapsto> True],
      \<lparr>stdout = [could_not_add_warning ''bad.bin'' ErrPermission],
         hashed = [''/repo/a.txt'', ''/repo/bad.bin'']\<rparr>)"
  by (simp add: walker_defs sample_tree_defs)

lemma sample_stage_all:
  "AddAll_fn sample_env [] no_effects
   = (None, [(''a.txt'', staged_entry)],
      \<lparr>stdout = [could_not_add_warning ''bad.bin'' ErrPermission],
         hashed = [''/repo/a.txt'', ''/repo/bad.bin'']\<rparr>)"
proof -
  have "LoadIgnorePatterns sample_env = Inr [''build.log'']" "filepath_Abs sample_env ''.'' = Inr ''/repo''"
    by (simp_all add: sample_env_def)
  then show ?thesis
    by (simp add: AddAll_fn_def sample_walk_all seen_at_def)
qed

lemma sample_first_run:
  "AddAll sample_env (repo_disk ''{}'') no_effects
   = (None, repo_disk staged_content,
      \<lparr>stdout = [could_not_add_warning ''bad.bin'' ErrPermission],
         hashed = [''/repo/a.txt'', ''/repo/bad.bin'']\<rparr>)"
proof -
  have env: "os_MkdirAll sample_env indexDir = None" "lock sample_env indexPath = None"
    "SafeWriteFile sample_env indexPath staged_content = None"
    "json_MarshalIndent sample_env [''a.txt'' \<mapsto> staged_entry] = Inr staged_content"
    by (simp_all add: sample_env_def sample_MarshalIndent_def)
  have "(\<lambda>p. None :: oserr option)(indexDir := None) = (\<lambda>p. None)"
    by (rule ext) simp
  then have d: "(repo_disk ''{}'')\<lparr>stat := (stat (repo_disk ''{}''))(indexDir := None),
                   indexFile := Inr staged_content\<rparr> = repo_disk staged_content"
    by (simp add: repo_disk_def)
  show ?thesis
    unfolding AddAll_def UpdateIndexWithMeta_def
    by (simp add: env sample_load_empty sample_stage_all Let_def d)
qed

lemma sample_reload:
  "LoadIndexWithMeta sample_env (repo_disk staged_content) = (Inr [(''a.txt'', staged_entry)], [])"
  by (simp add: LoadIndexWithMeta_def repo_disk_def sample_defs)

theorem AddAll_twice_same_bytes_witness:
  "AddAll sample_env (repo_disk ''{}'') no_effects
     = (None, repo_disk staged_content,
        \<lparr>stdout = [could_not_add_warning ''bad.bin'' ErrPermission],
           hashed = [''/repo/a.txt'', ''/repo/bad.bin'']\<rparr>)
   \<and> LoadIndexWithMeta sample_env (repo_disk staged_content) = (Inr [(''a.txt'', staged_entry)], [])
   \<and> (\<forall>p. ShouldIgnore sample_env p [''build.log''] (map_of (build_proxy [(''a.txt'', staged_entry)] []))
            = ShouldIgnore sample_env p [''build.log''] (map_of (build_proxy [] [])))
   \<and> walked_nodes sample_env (AddAll_skips sample_env ''/repo'') ''/repo'' (os_Lstat sample_env ''/repo'')
       = {(''/repo'', dir_info), (''/repo/.kitcat'', dir_info), (''/repo/a.txt'', file_info 5 100),
          (''/repo/bad.bin'', file_info 9 200), (''/repo/build.log'', file_info 3 300)}
   \<and> (\<exists>fx2 extra. AddAll sample_env (repo_disk staged_content)
                 \<lparr>stdout = [could_not_add_warning ''bad.bin'' ErrPermission],
                    hashed = [''/repo/a.txt'', ''/repo/bad.bin'']\<rparr>
               = (None, repo_disk staged_content, fx2)
             \<and> hashed fx2 = [''/repo/a.txt'', ''/repo/bad.bin''] @ extra
             \<and> list_all (\<lambda>q. \<exists>e. HashAndStoreFile sample_env q = Inl e) extra)
   \<and> indexFile (repo_disk staged_content) = Inr staged_content"
proof -
  let ?fx1 = "\<lparr>stdout = [could_not_add_warning ''bad.bin'' ErrPermission],
                hashed = [''/repo/a.txt'', ''/repo/bad.bin'']\<rparr>"
  have stg: "AddAll_fn sample_env [] (no_effects\<lparr>stdout := stdout no_effects @ []\<rparr>)
             = (None, [(''a.txt'', staged_entry)], ?fx1)"
    using sample_stage_all by simp
  have rt: "map_of [(''a.txt'', staged_entry)] = map_of [(''a.txt'', staged_entry)]" ..
  have pats: "LoadIgnorePatterns sample_env = Inr [''build.log'']"
    by (simp add: sample_env_def)
  have ign: "\<forall>p. ShouldIgnore sample_env p [''build.log''] (map_of (build_proxy [(''a.txt'', staged_entry)] []))
            = ShouldIgnore sample_env p [''build.log''] (map_of (build_proxy [] []))"
    by (simp add: sample_env_def)
  have root: "filepath_Abs sample_env ''.'' = Inr ''/repo''"
    by (simp add: sample_env_def)
  from ign have ign': "\<forall>fullPath info relPath.
      (fullPath, info) \<in> walked_nodes sample_env (AddAll_skips sample_env ''/repo'') ''/repo''
                              (os_Lstat sample_env ''/repo'')
      \<longrightarrow> \<not> IsDir info \<longrightarrow> filepath_Rel sample_env ''/repo'' fullPath = Inr relPath
      \<longrightarrow> ShouldIgnore sample_env (filepath_Clean sample_env relPath) [''build.log'']
            (map_of (build_proxy [(''a.txt'', staged_entry)] []))
          = ShouldIgnore sample_env (filepath_Clean sample_env relPath) [''build.log'']
              (map_of (build_proxy [] []))"
    by blast
  let ?W = "walked_nodes sample_env (AddAll_skips sample_env ''/repo'') ''/repo''
              (os_Lstat sample_env ''/repo'')"
  have nodes: "?W = {(''/repo'', dir_info), (''/repo/.kitcat'', dir_info),
                     (''/repo/a.txt'', file_info 5 100), (''/repo/bad.bin'', file_info 9 200),
                     (''/repo/build.log'', file_info 3 300)}"
    by (auto simp: walker_defs sample_tree_defs)
  have unique: "\<forall>p i p' i' c. (p, i) \<in> ?W \<longrightarrow> (p', i') \<in> ?W
      \<longrightarrow> accepted sample_env ''/repo'' [''build.log''] (build_proxy [] []) p i c
      \<longrightarrow> accepted sample_env ''/repo'' [''build.log''] (build_proxy [] []) p' i' c
      \<longrightarrow> p = p' \<and> i = i'"
    unfolding nodes by (auto simp: walker_defs sample_tree_defs)
  from AddAll_twice_same_bytes [OF sample_first_run sample_load_empty stg sample_reload rt pats root ign']
    unique
  have "\<exists>fx2 extra. AddAll sample_env (repo_disk staged_content) ?fx1
                       = (None, repo_disk staged_content, fx2)
          \<and> hashed fx2 = hashed ?fx1 @ extra
          \<and> (\<forall>q \<in> set extra. \<exists>e. HashAndStoreFile sample_env q = Inl e)"
    by blast
  then have "\<exists>fx2 extra. AddAll sample_env (repo_disk staged_content) ?fx1
                       = (None, repo_disk staged_content, fx2)
          \<and> hashed fx2 = [''/repo/a.txt'', ''/repo/bad.bin''] @ extra
          \<and> list_all (\<lambda>q. \<exists>e. HashAndStoreFile sample_env q = Inl e) extra"
    by (simp add: list_all_iff)
  then show ?thesis
    using sample_first_run sample_reload ign nodes by (simp add: repo_disk_def)
qed

end
